theory Spec2Isabelle
  imports Complex_Main "HOL-Library.AList"
begin

section \<open>Numbers\<close>

text \<open>
  A JavaScript number is an IEEE 754 double: a finite value, the negative zero, one
  of the two infinities, or NaN. \<open>Finite q\<close> is the double whose value is the rational
  \<open>q\<close>, one of the values \<open>m * 2^e\<close> with \<open>\<bar>m\<bar> < 2^53\<close> and \<open>-1074 \<le> e \<le> 971\<close>;
  \<open>Finite 0\<close> is the positive zero.
\<close>

datatype double = Finite rat | NegZero | PosInf | NegInf | NaN

text \<open>The number of binary digits of a positive integer, and the powers of two.\<close>

function bitLength :: "int \<Rightarrow> int" where
  "bitLength n = (if n \<le> 0 then 0 else 1 + bitLength (n div 2))"
  by pat_completeness auto
termination
  by (relation "measure nat") auto

declare bitLength.simps [simp del]

definition pow2 :: "int \<Rightarrow> rat" where
  "pow2 k = (if 0 \<le> k then 2 ^ nat k else 1 / 2 ^ nat (- k))"

text \<open>
  For a positive rational \<open>q\<close>, the exponent \<open>k\<close> with \<open>2^k \<le> q < 2^(k + 1)\<close>: the
  difference of the bit lengths of numerator and denominator, or one less.
\<close>

definition floorLog2 :: "rat \<Rightarrow> int" where
  "floorLog2 q =
     (let k = bitLength (fst (quotient_of q)) - bitLength (snd (quotient_of q))
      in if pow2 k \<le> q then k else k - 1)"

text \<open>The nearest integer, a tie going to the even one.\<close>

definition roundHalfEven :: "rat \<Rightarrow> int" where
  "roundHalfEven r =
     (let f = \<lfloor>r\<rfloor>; d = r - of_int f
      in if d < 1 / 2 then f else if 1 / 2 < d then f + 1 else if even f then f else f + 1)"

text \<open>
  Whether \<open>m * 2^e\<close> is \<open>2^1024\<close> or more, for a mantissa \<open>m \<le> 2^53\<close>: only with
  \<open>e \<ge> 971\<close>.
\<close>

definition overflows :: "int \<Rightarrow> int \<Rightarrow> bool" where
  "overflows m e = (if e < 971 then False else pow2 (1024 - e) \<le> of_int m)"

text \<open>
  The double nearest a rational (round to nearest, ties to even): what a numeric
  literal denotes and what an arithmetic operation returns for its exact result.
  The mantissa has 53 bits, or fewer where the exponent would fall below \<open>-1074\<close>; a
  result of magnitude \<open>2^1024\<close> or more is an infinity, and one that rounds to zero
  keeps its sign.
\<close>

definition roundToDouble :: "rat \<Rightarrow> double" where
  "roundToDouble q =
     (if q = 0 then Finite 0
      else let e = max (floorLog2 \<bar>q\<bar> - 52) (- 1074);
               m = roundHalfEven (\<bar>q\<bar> / pow2 e)
           in if overflows m e then (if 0 < q then PosInf else NegInf)
              else if m = 0 then (if 0 < q then Finite 0 else NegZero)
              else Finite (if 0 < q then of_int m * pow2 e else - (of_int m * pow2 e)))"

text \<open>
  \<open>x + y\<close>. NaN absorbs; the infinities of opposite sign give NaN; a sum of zeros is
  the negative zero only when both are; an exact sum of zero is the positive zero.
\<close>

fun dadd :: "double \<Rightarrow> double \<Rightarrow> double" where
  "dadd NaN y = NaN"
| "dadd x NaN = NaN"
| "dadd PosInf NegInf = NaN"
| "dadd NegInf PosInf = NaN"
| "dadd PosInf y = PosInf"
| "dadd x PosInf = PosInf"
| "dadd NegInf y = NegInf"
| "dadd x NegInf = NegInf"
| "dadd NegZero y = y"
| "dadd x NegZero = x"
| "dadd (Finite a) (Finite b) = (if a + b = 0 then Finite 0 else roundToDouble (a + b))"

text \<open>\<open>-x\<close>, \<open>x - y\<close> (which is \<open>x + (-y)\<close>) and \<open>Math.abs(x)\<close>.\<close>

fun dneg :: "double \<Rightarrow> double" where
  "dneg (Finite a) = (if a = 0 then NegZero else Finite (- a))"
| "dneg NegZero = Finite 0"
| "dneg PosInf = NegInf"
| "dneg NegInf = PosInf"
| "dneg NaN = NaN"

definition dsub :: "double \<Rightarrow> double \<Rightarrow> double" where
  "dsub x y = dadd x (dneg y)"

fun dabs :: "double \<Rightarrow> double" where
  "dabs (Finite a) = Finite \<bar>a\<bar>"
| "dabs NegZero = Finite 0"
| "dabs PosInf = PosInf"
| "dabs NegInf = PosInf"
| "dabs NaN = NaN"

text \<open>
  \<open>x < y\<close> and \<open>x >= y\<close>. Both are false when an operand is NaN; the two zeros are
  equal.
\<close>

fun dlt :: "double \<Rightarrow> double \<Rightarrow> bool" where
  "dlt NaN y = False"
| "dlt x NaN = False"
| "dlt x NegInf = False"
| "dlt PosInf y = False"
| "dlt NegInf y = True"
| "dlt x PosInf = True"
| "dlt (Finite a) (Finite b) = (a < b)"
| "dlt (Finite a) NegZero = (a < 0)"
| "dlt NegZero (Finite b) = (0 < b)"
| "dlt NegZero NegZero = False"

fun dge :: "double \<Rightarrow> double \<Rightarrow> bool" where
  "dge NaN y = False"
| "dge x NaN = False"
| "dge x y = (\<not> dlt x y)"


section \<open>Values, ports, edges, nodes\<close>

text \<open>
  The engine is written in TypeScript; node state, inputs and outputs are typed \<open>any\<close>.
  A JavaScript value is modelled by the datatype \<open>val\<close>. An object is the list of its
  own enumerable properties in the order \<open>Object.entries\<close> lists them, each key once;
  an array is an object keyed by its indices. A property an object does not own is
  read from its prototype, where it is a function or an object, never a number; the
  property reads of the source on these values go on only when the result is a
  number, so \<open>getProp\<close> answers \<open>undefined\<close> for every property that is not an own
  one, and for the properties of a primitive value. The one object the source reads
  and writes under names it does not choose, the input record of \<open>gatherInputs\<close>, is
  modelled with what it inherits (section engine/CLDEngine.ts).
\<close>

type_synonym NodeId = string
type_synonym PortId = string

datatype val =
    VUndefined
  | VNull
  | VBool bool
  | VNum double
  | VStr string
  | VObj "(string \<times> val) list"

text \<open>
  JavaScript truthiness, as used by \<open>if (x)\<close>, \<open>!x\<close> and \<open>x && ...\<close>. The numbers
  that are false are the two zeros and NaN.
\<close>

fun truthy :: "val \<Rightarrow> bool" where
  "truthy VUndefined = False"
| "truthy VNull = False"
| "truthy (VBool b) = b"
| "truthy (VNum x) = (x \<noteq> Finite 0 \<and> x \<noteq> NegZero \<and> x \<noteq> NaN)"
| "truthy (VStr s) = (s \<noteq> [])"
| "truthy (VObj kvs) = True"

text \<open>\<open>typeof v === "object"\<close>: true of objects and of \<open>null\<close>.\<close>

fun typeof_object :: "val \<Rightarrow> bool" where
  "typeof_object VNull = True"
| "typeof_object (VObj kvs) = True"
| "typeof_object v = False"

text \<open>The property read \<open>v[key]\<close> on a value that is not null or undefined.\<close>

fun getProp :: "val \<Rightarrow> string \<Rightarrow> val" where
  "getProp (VObj kvs) key = (case map_of kvs key of None \<Rightarrow> VUndefined | Some v \<Rightarrow> v)"
| "getProp v key = VUndefined"

datatype PortKind = InputKind | OutputKind

record PortDescriptor =
  port_id :: PortId
  port_name :: string
  port_kind :: PortKind

record Edge =
  edge_id :: string
  fromNodeId :: NodeId
  fromPortId :: PortId
  toNodeId :: NodeId
  toPortId :: PortId

text \<open>
  Everything the source can throw. The payload is the identifier the message names.
\<close>

datatype error =
    DuplicateNodeId NodeId
  | NodeNotFoundInGraph NodeId
  | NodeNotFoundInOrder NodeId
  | SourceNotFoundInOrder NodeId
  | ConfigError string
  | TypeError
  | NodeError string

record ExecutionContext =
  ctx_nodeId :: NodeId
  ctx_iteration :: int

text \<open>
  What an own property of the input record holds: a number, or a string that \<open>+=\<close>
  built. \<open>Text s ds\<close> is the string \<open>s\<close> followed by the texts of the numbers \<open>ds\<close>, in
  order, each as the conversion of a number to a string writes it (the digits are
  not spelled out).
\<close>

datatype inputValue = Number double | Text string "double list"

text \<open>
  A node definition. \<open>inputs\<close> and \<open>outputs\<close> are \<open>Record<string, PortDescriptor>\<close>:
  property key and descriptor, in the order \<open>Object.values\<close> lists them. \<open>calculate\<close> receives the input
  record (its own properties; what it inherits is the same for every record), the
  execution context and the value \<open>ctx.getState()\<close> returns; it yields the
  output value and the state it leaves in its own slot (through \<open>ctx.setState\<close>), or
  throws.
\<close>

record NodeDefinition =
  node_id :: NodeId
  node_type :: string
  state :: val
  inputs :: "(string \<times> PortDescriptor) list"
  outputs :: "(string \<times> PortDescriptor) list"
  calculate :: "(string \<rightharpoonup> inputValue) \<Rightarrow> ExecutionContext \<Rightarrow> val \<Rightarrow> error + (val \<times> val)"

section \<open>Graph.ts\<close>

text \<open>
  A graph value as the engine reads it: the entries of the \<open>nodes\<close> Map in insertion
  order, each key once, and the \<open>edges\<close> array. \<open>Map.set\<close> is \<open>AList.update\<close>: it
  replaces the binding of a present key in place and appends a new key at the end;
  \<open>Map.get\<close> is \<open>map_of\<close>.
\<close>

record Graph =
  nodes :: "(NodeId \<times> NodeDefinition) list"
  edges :: "Edge list"

text \<open>
  The graph helpers copy the containers they are given. To state that they leave
  their argument alone, the Map and the array live in a store of cells, and a graph
  object holds two addresses.
\<close>

datatype cell =
    MapCell "(NodeId \<times> NodeDefinition) list"
  | ArrayCell "Edge list"

record store =
  cells :: "nat \<rightharpoonup> cell"
  next_free :: nat

record GraphObj =
  nodes_ref :: nat
  edges_ref :: nat

definition alloc :: "store \<Rightarrow> cell \<Rightarrow> store \<times> nat" where
  "alloc s c = (\<lparr>cells = (cells s)(next_free s \<mapsto> c), next_free = Suc (next_free s)\<rparr>, next_free s)"

definition map_has :: "('k \<times> 'v) list \<Rightarrow> 'k \<Rightarrow> bool" where
  "map_has m k = (map_of m k \<noteq> None)"

definition map_size :: "('k \<times> 'v) list \<Rightarrow> nat" where
  "map_size m = length m"

text \<open>The graph a graph object denotes in a store, when both addresses are live.\<close>

definition readGraph :: "store \<Rightarrow> GraphObj \<Rightarrow> Graph option" where
  "readGraph s g =
     (case (cells s (nodes_ref g), cells s (edges_ref g)) of
        (Some (MapCell ns), Some (ArrayCell es)) \<Rightarrow> Some \<lparr>nodes = ns, edges = es\<rparr>
      | _ \<Rightarrow> None)"

definition createGraph :: "store \<Rightarrow> GraphObj \<times> store" where
  "createGraph s =
     (let (s1, m) = alloc s (MapCell []);
          (s2, a) = alloc s1 (ArrayCell [])
      in (\<lparr>nodes_ref = m, edges_ref = a\<rparr>, s2))"

text \<open>
  \<open>addNode\<close>: \<open>new Map(graph.nodes)\<close> allocates a copy; the duplicate check and the
  \<open>set\<close> act on the copy; \<open>graph.edges.slice()\<close> allocates a copy of the array. The
  result is the thrown error or the new graph object, with the store after the call.
  A graph object with a dead address cannot be built by the program; the model
  answers \<open>None\<close> there.
\<close>

definition addNode :: "store \<Rightarrow> GraphObj \<Rightarrow> NodeDefinition \<Rightarrow> ((error + GraphObj) \<times> store) option" where
  "addNode s graph node =
     (case (cells s (nodes_ref graph), cells s (edges_ref graph)) of
        (Some (MapCell ns), Some (ArrayCell es)) \<Rightarrow>
          (let (s1, nextNodes) = alloc s (MapCell ns) in
           if map_has ns (node_id node) then Some (Inl (DuplicateNodeId (node_id node)), s1)
           else
             (let s2 = s1\<lparr>cells := (cells s1)(nextNodes \<mapsto> MapCell (AList.update (node_id node) node ns))\<rparr>;
                  (s3, nextEdges) = alloc s2 (ArrayCell es)
              in Some (Inr \<lparr>nodes_ref = nextNodes, edges_ref = nextEdges\<rparr>, s3)))
      | _ \<Rightarrow> None)"

text \<open>
  \<open>addEdge\<close> shares the \<open>nodes\<close> Map with its argument and allocates a new array
  \<open>[...graph.edges, edge]\<close>.
\<close>

definition addEdge :: "store \<Rightarrow> GraphObj \<Rightarrow> Edge \<Rightarrow> (GraphObj \<times> store) option" where
  "addEdge s graph edge =
     (case cells s (edges_ref graph) of
        Some (ArrayCell es) \<Rightarrow>
          (let (s1, nextEdges) = alloc s (ArrayCell (es @ [edge]))
           in Some (\<lparr>nodes_ref = nodes_ref graph, edges_ref = nextEdges\<rparr>, s1))
      | _ \<Rightarrow> None)"

text \<open>
  A store is well formed when every live address lies below \<open>next_free\<close>, so that an
  allocation never overwrites a live cell.
\<close>

definition store_ok :: "store \<Rightarrow> bool" where
  "store_ok s = (\<forall>a. a \<in> dom (cells s) \<longrightarrow> a < next_free s)"

definition graph_size :: "store \<Rightarrow> GraphObj \<Rightarrow> nat option" where
  "graph_size s g = map_option (\<lambda>gr. map_size (nodes gr)) (readGraph s g)"


section \<open>topology/modifiedTopologicalSort.ts\<close>

definition getSuccessors :: "Graph \<Rightarrow> NodeId \<Rightarrow> NodeId list" where
  "getSuccessors graph nodeId = map toNodeId (filter (\<lambda>edge. fromNodeId edge = nodeId) (edges graph))"

text \<open>
  The bookkeeping of Tarjan's algorithm. The closure variables \<open>index\<close>, \<open>stack\<close>,
  \<open>nodeData\<close> and \<open>sccs\<close> of \<open>findSCCs\<close> are the fields of one state that the calls
  pass along. The stack is kept top first: \<open>push\<close> is \<open>#\<close>, \<open>pop\<close> takes the head.
\<close>

record NodeData =
  nd_index :: int
  lowLink :: int
  onStack :: bool

record tarjan =
  t_index :: int
  t_stack :: "NodeId list"
  nodeData :: "NodeId \<rightharpoonup> NodeData"
  sccs :: "NodeId list list"

definition setLowLink :: "NodeId \<Rightarrow> int \<Rightarrow> (NodeId \<rightharpoonup> NodeData) \<Rightarrow> (NodeId \<rightharpoonup> NodeData)" where
  "setLowLink nodeId l nd = (case nd nodeId of None \<Rightarrow> nd | Some d \<Rightarrow> nd(nodeId \<mapsto> d\<lparr>lowLink := l\<rparr>))"

definition clearOnStack :: "NodeId \<Rightarrow> (NodeId \<rightharpoonup> NodeData) \<Rightarrow> (NodeId \<rightharpoonup> NodeData)" where
  "clearOnStack w nd = (case nd w of None \<Rightarrow> nd | Some d \<Rightarrow> nd(w \<mapsto> d\<lparr>onStack := False\<rparr>))"

definition lowLinkOf :: "(NodeId \<rightharpoonup> NodeData) \<Rightarrow> NodeId \<Rightarrow> int" where
  "lowLinkOf nd nodeId = (case nd nodeId of None \<Rightarrow> -1 | Some d \<Rightarrow> lowLink d)"

definition indexOfNode :: "(NodeId \<rightharpoonup> NodeData) \<Rightarrow> NodeId \<Rightarrow> int" where
  "indexOfNode nd nodeId = (case nd nodeId of None \<Rightarrow> -1 | Some d \<Rightarrow> nd_index d)"

text \<open>
  The \<open>do ... while (w !== nodeId)\<close> loop that pops one component. The test \<open>if (w)\<close>
  is JavaScript truthiness of a string or \<open>undefined\<close>: it is false of \<open>undefined\<close>
  and of the empty string. On an empty stack \<open>pop()\<close> yields \<open>undefined\<close>, which is
  never \<open>nodeId\<close>, so the loop does not end: the model answers \<open>None\<close>.
\<close>

fun popScc :: "NodeId \<Rightarrow> NodeId list \<Rightarrow> (NodeId \<rightharpoonup> NodeData) \<Rightarrow> NodeId list \<Rightarrow>
    (NodeId list \<times> (NodeId \<rightharpoonup> NodeData) \<times> NodeId list) option" where
  "popScc nodeId [] nd scc = None"
| "popScc nodeId (w # stack) nd scc =
     (let nd' = (if w \<noteq> [] then clearOnStack w nd else nd);
          scc' = (if w \<noteq> [] then scc @ [w] else scc)
      in if w \<noteq> nodeId then popScc nodeId stack nd' scc' else Some (stack, nd', scc'))"

text \<open>
  \<open>strongConnect\<close> calls itself for each unvisited successor. The first argument
  bounds the depth of the nesting; \<open>None\<close> says that the call does not return (the
  depth is used up, or the pop loop does not end).
\<close>

fun strongConnect :: "nat \<Rightarrow> Graph \<Rightarrow> NodeId \<Rightarrow> tarjan \<Rightarrow> tarjan option"
  and visitSuccessors :: "nat \<Rightarrow> Graph \<Rightarrow> NodeId \<Rightarrow> NodeId list \<Rightarrow> tarjan \<Rightarrow> tarjan option" where
  "strongConnect 0 graph nodeId st = None"
| "strongConnect (Suc depth) graph nodeId st =
     (let st1 = st\<lparr>t_index := t_index st + 1,
                   t_stack := nodeId # t_stack st,
                   nodeData := (nodeData st)(nodeId \<mapsto>
                      \<lparr>nd_index = t_index st, lowLink = t_index st, onStack = True\<rparr>)\<rparr>
      in case visitSuccessors depth graph nodeId (getSuccessors graph nodeId) st1 of
           None \<Rightarrow> None
         | Some st2 \<Rightarrow>
             if lowLinkOf (nodeData st2) nodeId = indexOfNode (nodeData st2) nodeId
             then (case popScc nodeId (t_stack st2) (nodeData st2) [] of
                     None \<Rightarrow> None
                   | Some (stack', nd', scc) \<Rightarrow>
                       Some (st2\<lparr>t_stack := stack', nodeData := nd', sccs := sccs st2 @ [scc]\<rparr>))
             else Some st2)"
| "visitSuccessors depth graph nodeId [] st = Some st"
| "visitSuccessors depth graph nodeId (successorId # rest) st =
     (case nodeData st successorId of
        None \<Rightarrow> visitSuccessors depth graph nodeId rest st
      | Some successor \<Rightarrow>
          if nd_index successor = -1 then
            (case strongConnect depth graph successorId st of
               None \<Rightarrow> None
             | Some st' \<Rightarrow>
                 visitSuccessors depth graph nodeId rest
                   (st'\<lparr>nodeData := setLowLink nodeId
                       (min (lowLinkOf (nodeData st') nodeId) (lowLinkOf (nodeData st') successorId))
                       (nodeData st')\<rparr>))
          else if onStack successor then
            visitSuccessors depth graph nodeId rest
              (st\<lparr>nodeData := setLowLink nodeId
                  (min (lowLinkOf (nodeData st) nodeId) (nd_index successor)) (nodeData st)\<rparr>)
          else visitSuccessors depth graph nodeId rest st)"

text \<open>The loop \<open>for (const nodeId of graph.nodes.keys())\<close> that starts the searches.\<close>

fun runTarjan :: "nat \<Rightarrow> Graph \<Rightarrow> NodeId list \<Rightarrow> tarjan \<Rightarrow> tarjan option" where
  "runTarjan depth graph [] st = Some st"
| "runTarjan depth graph (nodeId # rest) st =
     (if indexOfNode (nodeData st) nodeId = -1
      then (case strongConnect depth graph nodeId st of
              None \<Rightarrow> None
            | Some st' \<Rightarrow> runTarjan depth graph rest st')
      else runTarjan depth graph rest st)"

definition initNodeData :: "NodeId list \<Rightarrow> (NodeId \<rightharpoonup> NodeData)" where
  "initNodeData ks = foldl (\<lambda>nd k. nd(k \<mapsto> \<lparr>nd_index = -1, lowLink = -1, onStack = False\<rparr>)) Map.empty ks"

text \<open>
  Every nested call of \<open>strongConnect\<close> is on a node not visited before, so the nesting
  is never deeper than the number of nodes; \<open>findSCCs\<close> is run with that depth.
\<close>

definition findSCCs :: "Graph \<Rightarrow> NodeId list list option" where
  "findSCCs graph =
     (let ks = map fst (nodes graph)
      in map_option sccs
           (runTarjan (length ks) graph ks
              \<lparr>t_index = 0, t_stack = [], nodeData = initNodeData ks, sccs = []\<rparr>))"

text \<open>
  The component graph is a \<open>Map<number, Set<number>>\<close>: the entries in insertion
  order, each set as the list of its members in insertion order.
\<close>

definition set_add :: "'a list \<Rightarrow> 'a \<Rightarrow> 'a list" where
  "set_add xs x = (if x \<in> set xs then xs else xs @ [x])"

fun mapNodesToComponents :: "NodeId list list \<Rightarrow> nat \<Rightarrow> (nat \<times> nat list) list \<Rightarrow> (NodeId \<rightharpoonup> nat) \<Rightarrow>
    (nat \<times> nat list) list \<times> (NodeId \<rightharpoonup> nat)" where
  "mapNodesToComponents [] componentId componentGraph nodeToComponent = (componentGraph, nodeToComponent)"
| "mapNodesToComponents (scc # rest) componentId componentGraph nodeToComponent =
     mapNodesToComponents rest (Suc componentId)
       (AList.update componentId [] componentGraph)
       (foldl (\<lambda>m nodeId. m(nodeId \<mapsto> componentId)) nodeToComponent scc)"

fun addComponentEdges :: "Edge list \<Rightarrow> (NodeId \<rightharpoonup> nat) \<Rightarrow> (nat \<times> nat list) list \<Rightarrow> (nat \<times> nat list) list" where
  "addComponentEdges [] nodeToComponent componentGraph = componentGraph"
| "addComponentEdges (edge # rest) nodeToComponent componentGraph =
     (case (nodeToComponent (fromNodeId edge), nodeToComponent (toNodeId edge)) of
        (Some fromComponent, Some toComponent) \<Rightarrow>
          if fromComponent \<noteq> toComponent then
            (case map_of componentGraph fromComponent of
               None \<Rightarrow> addComponentEdges rest nodeToComponent componentGraph
             | Some successors \<Rightarrow>
                 addComponentEdges rest nodeToComponent
                   (AList.update fromComponent (set_add successors toComponent) componentGraph))
          else addComponentEdges rest nodeToComponent componentGraph
      | _ \<Rightarrow> addComponentEdges rest nodeToComponent componentGraph)"

definition buildComponentGraph :: "NodeId list list \<Rightarrow> Graph \<Rightarrow> (nat \<times> nat list) list" where
  "buildComponentGraph sccs0 graph =
     (let (componentGraph, nodeToComponent) = mapNodesToComponents sccs0 0 [] Map.empty
      in addComponentEdges (edges graph) nodeToComponent componentGraph)"

text \<open>
  Kahn's algorithm on the component graph. \<open>inDegree\<close> is a \<open>Map<number, number>\<close> in
  insertion order; \<open>inDegree.get(s) || 0\<close> is 0 for a missing key.
\<close>

definition degreeOf :: "(nat \<times> int) list \<Rightarrow> nat \<Rightarrow> int" where
  "degreeOf inDegree c = (case map_of inDegree c of None \<Rightarrow> 0 | Some d \<Rightarrow> d)"

definition countInDegrees :: "(nat \<times> nat list) list \<Rightarrow> (nat \<times> int) list \<Rightarrow> (nat \<times> int) list" where
  "countInDegrees componentGraph inDegree =
     foldl (\<lambda>deg successor. AList.update successor (degreeOf deg successor + 1) deg)
       inDegree (concat (map snd componentGraph))"

text \<open>The inner loop over the successors of the component taken from the queue.\<close>

fun releaseSuccessors :: "nat list \<Rightarrow> (nat \<times> int) list \<Rightarrow> nat list \<Rightarrow> (nat \<times> int) list \<times> nat list" where
  "releaseSuccessors [] inDegree queue = (inDegree, queue)"
| "releaseSuccessors (successor # rest) inDegree queue =
     (let newDegree = degreeOf inDegree successor - 1
      in releaseSuccessors rest (AList.update successor newDegree inDegree)
           (if newDegree = 0 then queue @ [successor] else queue))"

definition positiveDegrees :: "(nat \<times> int) list \<Rightarrow> nat" where
  "positiveDegrees inDegree = length (filter (\<lambda>kd. 0 < snd kd) inDegree)"

lemma positiveDegrees_update:
  "positiveDegrees (AList.update k (degreeOf inDegree k - 1) inDegree) + (if degreeOf inDegree k - 1 = 0 then 1 else 0)
     = positiveDegrees inDegree"
  by (induction inDegree) (auto simp: positiveDegrees_def degreeOf_def)

lemma releaseSuccessors_measure:
  "releaseSuccessors succs inDegree queue = (inDegree', queue') \<Longrightarrow>
     positiveDegrees inDegree' + length queue' = positiveDegrees inDegree + length queue"
proof (induction succs arbitrary: inDegree queue)
  case Nil
  then show ?case by simp
next
  case (Cons s rest)
  show ?case
    using Cons.IH [of "AList.update s (degreeOf inDegree s - 1) inDegree"
                      "if degreeOf inDegree s - 1 = 0 then queue @ [s] else queue"]
          Cons.prems positiveDegrees_update [of s inDegree]
    by (simp add: Let_def split: if_splits)
qed

function kahnLoop :: "(nat \<times> nat list) list \<Rightarrow> nat list \<Rightarrow> (nat \<times> int) list \<Rightarrow> nat list \<Rightarrow> nat list" where
  "kahnLoop componentGraph [] inDegree result = result"
| "kahnLoop componentGraph (component # queue) inDegree result =
     (let successors = (case map_of componentGraph component of None \<Rightarrow> [] | Some s \<Rightarrow> s)
      in kahnLoop componentGraph
           (snd (releaseSuccessors successors inDegree queue))
           (fst (releaseSuccessors successors inDegree queue))
           (result @ [component]))"
  by pat_completeness auto
termination
proof (relation "measure (\<lambda>(cg, queue, inDegree, result). positiveDegrees inDegree + length queue)")
  show "wf (measure (\<lambda>(cg, queue, inDegree, result). positiveDegrees inDegree + length queue))"
    by simp
next
  fix componentGraph :: "(nat \<times> nat list) list" and component queue inDegree and result :: "nat list"
    and successors
  assume "successors = (case map_of componentGraph component of None \<Rightarrow> [] | Some s \<Rightarrow> s)"
  obtain d q where r: "releaseSuccessors successors inDegree queue = (d, q)"
    by (cases "releaseSuccessors successors inDegree queue")
  from releaseSuccessors_measure [OF r]
  show "((componentGraph, snd (releaseSuccessors successors inDegree queue),
          fst (releaseSuccessors successors inDegree queue), result @ [component]),
         (componentGraph, component # queue, inDegree, result))
        \<in> measure (\<lambda>(cg, queue, inDegree, result). positiveDegrees inDegree + length queue)"
    by (simp add: r)
qed

definition topologicalSortComponents :: "(nat \<times> nat list) list \<Rightarrow> nat list" where
  "topologicalSortComponents componentGraph =
     (let inDegree0 = map (\<lambda>(componentId, successors). (componentId, 0)) componentGraph;
          inDegree = countInDegrees componentGraph inDegree0;
          queue = map fst (filter (\<lambda>(componentId, degree). degree = 0) inDegree)
      in kahnLoop componentGraph queue inDegree [])"

text \<open>
  \<open>sccs[componentId]\<close> is \<open>undefined\<close> out of range and the flattening skips it; an
  array, empty or not, is truthy.
\<close>

definition modifiedTopologicalSort :: "Graph \<Rightarrow> NodeId list option" where
  "modifiedTopologicalSort graph =
     (case findSCCs graph of
        None \<Rightarrow> None
      | Some sccs0 \<Rightarrow>
          (let componentGraph = buildComponentGraph sccs0 graph;
               componentOrder = topologicalSortComponents componentGraph
           in Some (concat (map (\<lambda>componentId.
                      if componentId < length sccs0 then sccs0 ! componentId else []) componentOrder))))"


section \<open>IExecutionStrategy.ts and the strategies\<close>

text \<open>
  A strategy object: its three methods, over the mutable fields \<open>'s\<close> the object
  keeps between calls. \<open>determineExecutionOrder\<close> answers \<open>None\<close> when it does not
  return; \<open>shouldContinue\<close> takes the fields and yields them updated. A \<open>Map<NodeId, any>\<close>
  of results is the list of its entries in insertion order.
\<close>

type_synonym results = "(NodeId \<times> val) list"

record 's ExecutionStrategy =
  determineExecutionOrder :: "Graph \<Rightarrow> NodeId list option"
  shouldContinue :: "'s \<Rightarrow> int \<Rightarrow> results \<Rightarrow> (error + bool) \<times> 's"
  getBackEdgeValues :: "int \<Rightarrow> results option \<Rightarrow> (string \<rightharpoonup> double)"

definition SinglePassStrategy :: "unit ExecutionStrategy" where
  "SinglePassStrategy =
     \<lparr>determineExecutionOrder = modifiedTopologicalSort,
      shouldContinue = (\<lambda>s iteration res. (Inr (iteration < 1), s)),
      getBackEdgeValues = (\<lambda>iteration previousResults. Map.empty)\<rparr>"

text \<open>The template literal \<open>`${nodeId}.${portId}`\<close>.\<close>

definition backEdgeKey :: "NodeId \<Rightarrow> PortId \<Rightarrow> string" where
  "backEdgeKey nodeId portId = nodeId @ ''.'' @ portId"

text \<open>\<open>Object.entries\<close> of a value that passed \<open>outputs && typeof outputs === "object"\<close>.\<close>

fun entries :: "val \<Rightarrow> (string \<times> val) list" where
  "entries (VObj kvs) = kvs"
| "entries v = []"

text \<open>
  The scan of \<open>getBackEdgeValues\<close>: the inner loop over the fields of one output
  record, and the outer loop over the entries of \<open>previousResults\<close>.
\<close>

fun setNumericFields :: "NodeId \<Rightarrow> (string \<times> val) list \<Rightarrow> (string \<rightharpoonup> double) \<Rightarrow> (string \<rightharpoonup> double)" where
  "setNumericFields nodeId [] backEdgeValues = backEdgeValues"
| "setNumericFields nodeId ((portName, value) # rest) backEdgeValues =
     (case value of
        VNum x \<Rightarrow> setNumericFields nodeId rest (backEdgeValues(backEdgeKey nodeId portName \<mapsto> x))
      | _ \<Rightarrow> setNumericFields nodeId rest backEdgeValues)"

fun scanResults :: "results \<Rightarrow> (string \<rightharpoonup> double) \<Rightarrow> (string \<rightharpoonup> double)" where
  "scanResults [] backEdgeValues = backEdgeValues"
| "scanResults ((nodeId, outs) # rest) backEdgeValues =
     (if truthy outs \<and> typeof_object outs
      then scanResults rest (setNumericFields nodeId (entries outs) backEdgeValues)
      else scanResults rest backEdgeValues)"

definition MultiPass_getBackEdgeValues :: "int \<Rightarrow> results option \<Rightarrow> (string \<rightharpoonup> double)" where
  "MultiPass_getBackEdgeValues iteration previousResults =
     (case previousResults of
        None \<Rightarrow> Map.empty
      | Some prev \<Rightarrow> if iteration = 1 then Map.empty else scanResults prev Map.empty)"

text \<open>The constructor throws on \<open>maxIterations < 1\<close>.\<close>

definition MultiPassStrategy :: "int \<Rightarrow> error + unit ExecutionStrategy" where
  "MultiPassStrategy maxIterations =
     (if maxIterations < 1 then Inl (ConfigError ''maxIterations must be at least 1'')
      else Inr \<lparr>determineExecutionOrder = modifiedTopologicalSort,
                shouldContinue = (\<lambda>s iteration res. (Inr (iteration < maxIterations), s)),
                getBackEdgeValues = MultiPass_getBackEdgeValues\<rparr>)"

text \<open>
  \<open>checkConvergence\<close>. The inner loop compares the numeric fields of one current
  output record with the previous record of the same node: \<open>Math.abs(currentValue -
  previousValue) >= this.threshold\<close>, in the arithmetic of doubles.
\<close>

fun fieldsConverged :: "double \<Rightarrow> val \<Rightarrow> (string \<times> val) list \<Rightarrow> bool" where
  "fieldsConverged threshold previousOutputs [] = True"
| "fieldsConverged threshold previousOutputs ((portId, currentValue) # rest) =
     (case currentValue of
        VNum c \<Rightarrow>
          (case getProp previousOutputs portId of
             VNum p \<Rightarrow> if dge (dabs (dsub c p)) threshold then False
                       else fieldsConverged threshold previousOutputs rest
           | _ \<Rightarrow> False)
      | _ \<Rightarrow> fieldsConverged threshold previousOutputs rest)"

text \<open>
  The loop over the current results. \<open>previous.get(nodeId)\<close> is \<open>undefined\<close> for a
  missing node. \<open>typeof null === "object"\<close>, so a current output \<open>null\<close> beside a
  previous object reaches \<open>Object.entries(null)\<close>, which throws a TypeError. The
  result \<open>Inr True\<close> says that every node passed; the size test follows.
\<close>

fun nodesConverged :: "double \<Rightarrow> results \<Rightarrow> results \<Rightarrow> error + bool" where
  "nodesConverged threshold previous [] = Inr True"
| "nodesConverged threshold previous ((nodeId, currentOutputs) # rest) =
     (let previousOutputs = (case map_of previous nodeId of None \<Rightarrow> VUndefined | Some v \<Rightarrow> v)
      in if \<not> truthy previousOutputs then Inr False
         else if typeof_object currentOutputs \<and> typeof_object previousOutputs then
           (if currentOutputs = VNull then Inl TypeError
            else if fieldsConverged threshold previousOutputs (entries currentOutputs)
                 then nodesConverged threshold previous rest
                 else Inr False)
         else Inr False)"

definition checkConvergence :: "double \<Rightarrow> results \<Rightarrow> results \<Rightarrow> error + bool" where
  "checkConvergence threshold previous current =
     (case nodesConverged threshold previous current of
        Inl e \<Rightarrow> Inl e
      | Inr False \<Rightarrow> Inr False
      | Inr True \<Rightarrow> if map_size previous \<noteq> map_size current then Inr False else Inr True)"

text \<open>
  \<open>ConvergenceStrategy.shouldContinue\<close>, over the private field \<open>previousResults\<close>.
  When \<open>checkConvergence\<close> throws, the field has not been assigned yet.
\<close>

definition Convergence_shouldContinue ::
    "double \<Rightarrow> int \<Rightarrow> results option \<Rightarrow> int \<Rightarrow> results \<Rightarrow> (error + bool) \<times> results option" where
  "Convergence_shouldContinue threshold maxIterations previousResults iteration res =
     (if iteration \<ge> maxIterations then (Inr False, previousResults)
      else case previousResults of
             None \<Rightarrow> (Inr True, Some res)
           | Some prev \<Rightarrow>
               (case checkConvergence threshold prev res of
                  Inl e \<Rightarrow> (Inl e, previousResults)
                | Inr hasConverged \<Rightarrow> (Inr (\<not> hasConverged), Some res)))"

definition Convergence_getBackEdgeValues :: "int \<Rightarrow> results option \<Rightarrow> (string \<rightharpoonup> double)" where
  "Convergence_getBackEdgeValues iteration previousResults =
     (case previousResults of
        None \<Rightarrow> Map.empty
      | Some prev \<Rightarrow> if iteration = 1 then Map.empty else scanResults prev Map.empty)"

text \<open>
  The constructor: \<open>maxIterations\<close> defaults to 100; it throws on a negative threshold
  and on \<open>maxIterations < 1\<close>. A new object has \<open>previousResults = undefined\<close>, the
  field value \<open>None\<close>.
\<close>

definition ConvergenceStrategy :: "double \<Rightarrow> int option \<Rightarrow> error + results option ExecutionStrategy" where
  "ConvergenceStrategy threshold maxArg =
     (let maxIterations = (case maxArg of None \<Rightarrow> 100 | Some m \<Rightarrow> m)
      in if dlt threshold (Finite 0) then Inl (ConfigError ''threshold must be non-negative'')
         else if maxIterations < 1 then Inl (ConfigError ''maxIterations must be at least 1'')
         else Inr \<lparr>determineExecutionOrder = modifiedTopologicalSort,
                   shouldContinue = Convergence_shouldContinue threshold maxIterations,
                   getBackEdgeValues = Convergence_getBackEdgeValues\<rparr>)"

section \<open>engine/CLDEngine.ts\<close>

text \<open>\<open>Array.prototype.indexOf\<close>: the first position of the element, or -1.\<close>

fun indexOf :: "'a list \<Rightarrow> 'a \<Rightarrow> int" where
  "indexOf [] x = -1"
| "indexOf (y # ys) x = (if y = x then 0 else (if indexOf ys x = -1 then -1 else indexOf ys x + 1))"

text \<open>\<open>Object.values(ports).find((port) => port.id === portId)\<close>.\<close>

definition findPort :: "(string \<times> PortDescriptor) list \<Rightarrow> PortId \<Rightarrow> PortDescriptor option" where
  "findPort ports portId = find (\<lambda>port. port_id port = portId) (map snd ports)"

text \<open>
  The value one incoming edge contributes: the part of the loop body of
  \<open>gatherInputs\<close> from the lookup of the source index to the assignment of
  \<open>edgeValue\<close>.
\<close>

definition edgeValue :: "Graph \<Rightarrow> results \<Rightarrow> (string \<rightharpoonup> double) \<Rightarrow> NodeId list \<Rightarrow> int \<Rightarrow> Edge \<Rightarrow> error + double" where
  "edgeValue graph currentOutputs backEdgeValues executionOrder currentNodeIndex edge =
     (let sourceNodeIndex = indexOf executionOrder (fromNodeId edge)
      in if sourceNodeIndex = -1 then Inl (SourceNotFoundInOrder (fromNodeId edge))
         else if sourceNodeIndex > currentNodeIndex then
           Inr (case backEdgeValues (backEdgeKey (fromNodeId edge) (fromPortId edge)) of
                  None \<Rightarrow> Finite 0 | Some v \<Rightarrow> v)
         else
           (case map_of currentOutputs (fromNodeId edge) of
              None \<Rightarrow> Inr (Finite 0)
            | Some sourceOutputs \<Rightarrow>
                if truthy sourceOutputs then
                  (case map_of (nodes graph) (fromNodeId edge) of
                     None \<Rightarrow> Inr (Finite 0)
                   | Some sourceNode \<Rightarrow>
                       (case findPort (outputs sourceNode) (fromPortId edge) of
                          None \<Rightarrow> Inr (Finite 0)
                        | Some outputPort \<Rightarrow>
                            (case getProp sourceOutputs (port_name outputPort) of
                               VNum x \<Rightarrow> Inr x
                             | _ \<Rightarrow> Inr (Finite 0))))
                else Inr (Finite 0)))"

text \<open>
  The input record is the object literal \<open>{}\<close>: it inherits the properties of
  \<open>Object.prototype\<close>. These are the accessor \<open>__proto__\<close> and eleven functions, listed
  here by name with the string each converts to (as Node writes it).
\<close>

definition objectPrototype :: "(string \<times> string) list" where
  "objectPrototype =
     [(''constructor'', ''function Object() { [native code] }''),
      (''__defineGetter__'', ''function __defineGetter__() { [native code] }''),
      (''__defineSetter__'', ''function __defineSetter__() { [native code] }''),
      (''hasOwnProperty'', ''function hasOwnProperty() { [native code] }''),
      (''__lookupGetter__'', ''function __lookupGetter__() { [native code] }''),
      (''__lookupSetter__'', ''function __lookupSetter__() { [native code] }''),
      (''isPrototypeOf'', ''function isPrototypeOf() { [native code] }''),
      (''propertyIsEnumerable'', ''function propertyIsEnumerable() { [native code] }''),
      (''toString'', ''function toString() { [native code] }''),
      (''valueOf'', ''function valueOf() { [native code] }''),
      (''toLocaleString'', ''function toLocaleString() { [native code] }'')]"

definition inheritedNames :: "string set" where
  "inheritedNames = insert ''__proto__'' (set (map fst objectPrototype))"

text \<open>
  The two statements that file an edge value under a name:
  \<open>if (inputValues[name] === undefined) inputValues[name] = 0; inputValues[name] += edgeValue\<close>.
  An own property is added to: a number by the addition of doubles, a string by
  concatenation. Where the record has no own property, the read finds what the
  record inherits, and only a name it does not inherit reads \<open>undefined\<close> and starts
  from 0. An inherited function is not \<open>undefined\<close>: \<open>+=\<close> converts it to its string
  and appends the number, and the assignment makes the result an own property.
  Under \<open>__proto__\<close> the read finds the prototype object and the assignment reaches
  the setter of the accessor, which ignores a string: the record is left as it was.
\<close>

definition addToInput :: "(string \<rightharpoonup> inputValue) \<Rightarrow> string \<Rightarrow> double \<Rightarrow> (string \<rightharpoonup> inputValue)" where
  "addToInput inputValues name v =
     (case inputValues name of
        Some (Number x) \<Rightarrow> inputValues(name \<mapsto> Number (dadd x v))
      | Some (Text s ds) \<Rightarrow> inputValues(name \<mapsto> Text s (ds @ [v]))
      | None \<Rightarrow>
          if name = ''__proto__'' then inputValues
          else (case map_of objectPrototype name of
                  Some s \<Rightarrow> inputValues(name \<mapsto> Text s [v])
                | None \<Rightarrow> inputValues(name \<mapsto> Number (dadd (Finite 0) v))))"

text \<open>
  The loop over the incoming edges. An edge whose target port the node does not
  have is skipped before its source is looked at.
\<close>

fun gatherLoop :: "NodeDefinition \<Rightarrow> Graph \<Rightarrow> results \<Rightarrow> (string \<rightharpoonup> double) \<Rightarrow> NodeId list \<Rightarrow> int \<Rightarrow>
    Edge list \<Rightarrow> (string \<rightharpoonup> inputValue) \<Rightarrow> error + (string \<rightharpoonup> inputValue)" where
  "gatherLoop node graph currentOutputs backEdgeValues executionOrder currentNodeIndex [] inputValues =
     Inr inputValues"
| "gatherLoop node graph currentOutputs backEdgeValues executionOrder currentNodeIndex (edge # rest) inputValues =
     (case findPort (inputs node) (toPortId edge) of
        None \<Rightarrow>
          gatherLoop node graph currentOutputs backEdgeValues executionOrder currentNodeIndex rest inputValues
      | Some inputPort \<Rightarrow>
          (case edgeValue graph currentOutputs backEdgeValues executionOrder currentNodeIndex edge of
             Inl e \<Rightarrow> Inl e
           | Inr v \<Rightarrow>
               gatherLoop node graph currentOutputs backEdgeValues executionOrder currentNodeIndex rest
                 (addToInput inputValues (port_name inputPort) v)))"

definition gatherInputs :: "NodeId \<Rightarrow> NodeDefinition \<Rightarrow> Graph \<Rightarrow> results \<Rightarrow> (string \<rightharpoonup> double) \<Rightarrow> NodeId list \<Rightarrow>
    error + (string \<rightharpoonup> inputValue)" where
  "gatherInputs nodeId node graph currentOutputs backEdgeValues executionOrder =
     (let incomingEdges = filter (\<lambda>edge. toNodeId edge = nodeId) (edges graph);
          currentNodeIndex = indexOf executionOrder nodeId
      in if currentNodeIndex = -1 then Inl (NodeNotFoundInOrder nodeId)
         else gatherLoop node graph currentOutputs backEdgeValues executionOrder currentNodeIndex
                incomingEdges Map.empty)"

text \<open>
  The maps one \<open>execute\<close> call owns: the state map, the results of the running
  iteration and the last known outputs.
\<close>

record run =
  stateMap :: results
  currentResults :: results
  outputsMap :: results

definition getState :: "results \<Rightarrow> NodeId \<Rightarrow> val" where
  "getState sm nodeId = (case map_of sm nodeId of None \<Rightarrow> VUndefined | Some v \<Rightarrow> v)"

text \<open>The loop \<open>for (const nodeId of executionOrder)\<close> of one iteration.\<close>

fun runNodes :: "Graph \<Rightarrow> int \<Rightarrow> (string \<rightharpoonup> double) \<Rightarrow> NodeId list \<Rightarrow> NodeId list \<Rightarrow> run \<Rightarrow> error + run" where
  "runNodes graph iteration backEdgeValues executionOrder [] r = Inr r"
| "runNodes graph iteration backEdgeValues executionOrder (nodeId # rest) r =
     (case map_of (nodes graph) nodeId of
        None \<Rightarrow> Inl (NodeNotFoundInGraph nodeId)
      | Some node \<Rightarrow>
          (case gatherInputs nodeId node graph (currentResults r) backEdgeValues executionOrder of
             Inl e \<Rightarrow> Inl e
           | Inr inputValues \<Rightarrow>
               (case calculate node inputValues \<lparr>ctx_nodeId = nodeId, ctx_iteration = iteration\<rparr>
                       (getState (stateMap r) nodeId) of
                  Inl e \<Rightarrow> Inl e
                | Inr (nodeOutputs, nextState) \<Rightarrow>
                    runNodes graph iteration backEdgeValues executionOrder rest
                      \<lparr>stateMap = AList.update nodeId nextState (stateMap r),
                       currentResults = AList.update nodeId nodeOutputs (currentResults r),
                       outputsMap = AList.update nodeId nodeOutputs (outputsMap r)\<rparr>)))"

record ExecutionResult =
  res_state :: results
  res_outputs :: results
  iterations :: int

text \<open>
  The \<open>while (true)\<close> loop of \<open>execute\<close>. The first argument bounds the number of
  iterations the model follows; \<open>None\<close> says that the call has not returned within
  them. The result carries the strategy's fields as the call leaves them.
\<close>

fun executeLoop :: "nat \<Rightarrow> 's ExecutionStrategy \<Rightarrow> 's \<Rightarrow> Graph \<Rightarrow> int \<Rightarrow> results option \<Rightarrow> results \<Rightarrow> results \<Rightarrow>
    ((error + ExecutionResult) \<times> 's) option" where
  "executeLoop 0 strategy ss graph iteration previousResults sm outs = None"
| "executeLoop (Suc fuel) strategy ss graph iteration previousResults sm outs =
     (case determineExecutionOrder strategy graph of
        None \<Rightarrow> None
      | Some executionOrder \<Rightarrow>
          (case runNodes graph (iteration + 1)
                  (getBackEdgeValues strategy (iteration + 1) previousResults)
                  executionOrder executionOrder
                  \<lparr>stateMap = sm, currentResults = [], outputsMap = outs\<rparr> of
             Inl e \<Rightarrow> Some (Inl e, ss)
           | Inr r \<Rightarrow>
               (case shouldContinue strategy ss (iteration + 1) (currentResults r) of
                  (Inl e, ss') \<Rightarrow> Some (Inl e, ss')
                | (Inr False, ss') \<Rightarrow>
                    Some (Inr \<lparr>res_state = stateMap r, res_outputs = outputsMap r,
                               iterations = iteration + 1\<rparr>, ss')
                | (Inr True, ss') \<Rightarrow>
                    executeLoop fuel strategy ss' graph (iteration + 1)
                      (Some (currentResults r)) (stateMap r) (outputsMap r))))"

text \<open>
  The initial state map: the caller's state where \<open>initialState\<close> has the node,
  else \<open>node.state ?? {}\<close>.
\<close>

definition initialStateMap :: "Graph \<Rightarrow> results option \<Rightarrow> results" where
  "initialStateMap graph initialState =
     foldl (\<lambda>sm (nodeId, node).
              AList.update nodeId
                (case (case initialState of None \<Rightarrow> None | Some i \<Rightarrow> map_of i nodeId) of
                   Some v \<Rightarrow> v
                 | None \<Rightarrow> (if state node = VUndefined \<or> state node = VNull then VObj [] else state node))
                sm)
       [] (nodes graph)"

definition execute :: "nat \<Rightarrow> 's ExecutionStrategy \<Rightarrow> 's \<Rightarrow> Graph \<Rightarrow> results option \<Rightarrow>
    ((error + ExecutionResult) \<times> 's) option" where
  "execute fuel strategy ss graph initialState =
     executeLoop fuel strategy ss graph 0 None (initialStateMap graph initialState) []"

section \<open>nodes/VariableNode.ts and the constant node of the tests\<close>

text \<open>
  The reference node: it adds \<open>inputValues.delta ?? 0\<close> to \<open>state.value\<close> and emits
  the delta. Reading \<open>value\<close> of an undefined or null state throws a TypeError. The
  model follows the sum for a numeric \<open>delta\<close> and a numeric \<open>value\<close>; for any other
  the source's \<open>+\<close> coerces, which is outside this model (\<open>NodeError\<close>).
\<close>

definition createVariableNode :: "NodeId \<Rightarrow> double \<Rightarrow> NodeDefinition" where
  "createVariableNode ident initialValue =
     \<lparr>node_id = ident, node_type = ''variable'',
      state = VObj [(''value'', VNum initialValue)],
      inputs = [(''delta'', \<lparr>port_id = ''delta'', port_name = ''delta'', port_kind = InputKind\<rparr>)],
      outputs = [(''delta'', \<lparr>port_id = ''delta'', port_name = ''delta'', port_kind = OutputKind\<rparr>)],
      calculate = (\<lambda>inputValues ctx currentState.
         if currentState = VUndefined \<or> currentState = VNull then Inl TypeError
         else case inputValues ''delta'' of
                Some (Text s ds) \<Rightarrow> Inl (NodeError ''non-numeric delta'')
              | other \<Rightarrow>
                  (let delta = (case other of Some (Number d) \<Rightarrow> d | _ \<Rightarrow> Finite 0)
                   in case getProp currentState ''value'' of
                        VNum x \<Rightarrow> Inr (VObj [(''delta'', VNum delta)], VObj [(''value'', VNum (dadd x delta))])
                      | _ \<Rightarrow> Inl (NodeError ''non-numeric state'')))\<rparr>"

definition createConstantNode :: "NodeId \<Rightarrow> double \<Rightarrow> NodeDefinition" where
  "createConstantNode ident outputValue =
     \<lparr>node_id = ident, node_type = ''constant'',
      state = VObj [],
      inputs = [],
      outputs = [(''delta'', \<lparr>port_id = ''delta'', port_name = ''delta'', port_kind = OutputKind\<rparr>)],
      calculate = (\<lambda>inputValues ctx currentState. Inr (VObj [(''delta'', VNum outputValue)], currentState))\<rparr>"

definition mkEdge :: "string \<Rightarrow> NodeId \<Rightarrow> PortId \<Rightarrow> NodeId \<Rightarrow> PortId \<Rightarrow> Edge" where
  "mkEdge e a p b q = \<lparr>edge_id = e, fromNodeId = a, fromPortId = p, toNodeId = b, toPortId = q\<rparr>"


section \<open>Notions the statements use\<close>

text \<open>
  The pairs of key and value the scan of \<open>getBackEdgeValues\<close> emits, in scan
  order: for one output record, and for all entries of \<open>previousResults\<close>.
\<close>

fun numericFields :: "NodeId \<Rightarrow> (string \<times> val) list \<Rightarrow> (string \<times> double) list" where
  "numericFields nodeId [] = []"
| "numericFields nodeId ((portName, value) # rest) =
     (case value of
        VNum x \<Rightarrow> (backEdgeKey nodeId portName, x) # numericFields nodeId rest
      | _ \<Rightarrow> numericFields nodeId rest)"

fun emitted :: "results \<Rightarrow> (string \<times> double) list" where
  "emitted [] = []"
| "emitted ((nodeId, outs) # rest) =
     (if truthy outs \<and> typeof_object outs then numericFields nodeId (entries outs) else []) @ emitted rest"

text \<open>
  No two numeric fields scanned yield the same key string.
\<close>

definition collisionFree :: "results \<Rightarrow> bool" where
  "collisionFree prev = distinct (map fst (emitted prev))"

text \<open>
  The name under which \<open>gatherInputs\<close> files an edge in the input record: the
  name of the port its \<open>toPortId\<close> resolves to on the node, if there is one.
\<close>

definition targetName :: "NodeDefinition \<Rightarrow> Edge \<Rightarrow> string option" where
  "targetName node edge = map_option port_name (findPort (inputs node) (toPortId edge))"

text \<open>
  The first \<open>k\<close> iterations of \<open>execute\<close> in the order \<open>ord\<close>, with the back-edge
  values \<open>bevf\<close> supplies: the results of iteration \<open>k\<close> (absent before the first),
  the state map and the outputs map after it, or the error that aborted the run.
  \<open>resultsAt\<close> is the results map of iteration \<open>k\<close>; \<open>outcome\<close> is what \<open>execute\<close>
  returns when it stops after iteration \<open>n\<close>.
\<close>

fun iterateRun :: "(int \<Rightarrow> results option \<Rightarrow> (string \<rightharpoonup> double)) \<Rightarrow> Graph \<Rightarrow> NodeId list \<Rightarrow> results \<Rightarrow> nat \<Rightarrow>
    error + (results option \<times> results \<times> results)" where
  "iterateRun bevf g ord sm0 0 = Inr (None, sm0, [])"
| "iterateRun bevf g ord sm0 (Suc k) =
     (case iterateRun bevf g ord sm0 k of
        Inl e \<Rightarrow> Inl e
      | Inr (prev, sm, outs) \<Rightarrow>
          (case runNodes g (int k + 1) (bevf (int k + 1) prev) ord ord
                  \<lparr>stateMap = sm, currentResults = [], outputsMap = outs\<rparr> of
             Inl e \<Rightarrow> Inl e
           | Inr r \<Rightarrow> Inr (Some (currentResults r), stateMap r, outputsMap r)))"

definition resultsAt :: "(int \<Rightarrow> results option \<Rightarrow> (string \<rightharpoonup> double)) \<Rightarrow> Graph \<Rightarrow> NodeId list \<Rightarrow> results \<Rightarrow> nat \<Rightarrow> results" where
  "resultsAt bevf g ord sm0 k =
     (case iterateRun bevf g ord sm0 k of Inr (Some cur, sm, outs) \<Rightarrow> cur | _ \<Rightarrow> [])"

definition outcome :: "error + (results option \<times> results \<times> results) \<Rightarrow> int \<Rightarrow> error + ExecutionResult" where
  "outcome x n =
     (case x of
        Inl e \<Rightarrow> Inl e
      | Inr (cur, sm, outs) \<Rightarrow> Inr \<lparr>res_state = sm, res_outputs = outs, iterations = n\<rparr>)"

text \<open>
  What an error that aborts a run says: a node's \<open>calculate\<close> threw it, or it names
  an id of the order that is no node of the graph, or the source of an edge into an
  ordered node that is itself missing from the order.
\<close>

definition thrownByNode :: "Graph \<Rightarrow> error \<Rightarrow> bool" where
  "thrownByNode g err =
     (\<exists>n node inputValues ctx st. map_of (nodes g) n = Some node \<and> calculate node inputValues ctx st = Inl err)"

definition justified :: "Graph \<Rightarrow> NodeId list \<Rightarrow> error \<Rightarrow> bool" where
  "justified g ord err =
     (thrownByNode g err \<or>
      (\<exists>n. err = NodeNotFoundInGraph n \<and> n \<in> set ord \<and> map_of (nodes g) n = None) \<or>
      (\<exists>e \<in> set (edges g). err = SourceNotFoundInOrder (fromNodeId e) \<and>
          fromNodeId e \<notin> set ord \<and> toNodeId e \<in> set ord))"

text \<open>
  For the search of \<open>findSCCs\<close>: the nodes not visited yet, and what a call changes
  of the state it is given (it adds no node, visits some, and leaves the stack it
  found below what it pushes).
\<close>

definition unvisited :: "(NodeId \<rightharpoonup> NodeData) \<Rightarrow> NodeId set" where
  "unvisited nd = {v. \<exists>d. nd v = Some d \<and> nd_index d = -1}"

definition extends :: "tarjan \<Rightarrow> tarjan \<Rightarrow> bool" where
  "extends st st' \<longleftrightarrow>
     dom (nodeData st') = dom (nodeData st) \<and>
     unvisited (nodeData st') \<subseteq> unvisited (nodeData st) \<and>
     t_index st \<le> t_index st' \<and>
     (\<exists>xs. t_stack st' = xs @ t_stack st)"

text \<open>
  Graphs of the repository's tests, and a few more. \<open>selfLoopGraph\<close> is the self-loop
  test of LimitTests, \<open>cycleGraph\<close> the cycle of Phase5BackEdge, \<open>feedbackGraph\<close> and
  \<open>convergingGraph\<close> the two graphs of the convergence tests. The two dangling graphs
  have an edge whose source, or target, is no node. \<open>sharedNameNode\<close> has two input
  ports of distinct ids and one name; \<open>twoPortNode\<close> two input ports of distinct names.
  The last two graphs have a node whose id is the empty string.
\<close>

definition selfLoopGraph :: Graph where
  "selfLoopGraph =
     \<lparr>nodes = [(''SOURCE'', createConstantNode ''SOURCE'' (Finite 1)), (''A'', createVariableNode ''A'' (Finite 0))],
      edges = [mkEdge ''e-source-a'' ''SOURCE'' ''delta'' ''A'' ''delta'',
               mkEdge ''e-a-a'' ''A'' ''delta'' ''A'' ''delta'']\<rparr>"

definition cycleGraph :: Graph where
  "cycleGraph =
     \<lparr>nodes = [(''A'', createConstantNode ''A'' (Finite 1)), (''B'', createVariableNode ''B'' (Finite 0)),
               (''C'', createVariableNode ''C'' (Finite 0))],
      edges = [mkEdge ''e1'' ''A'' ''delta'' ''B'' ''delta'',
               mkEdge ''e2'' ''B'' ''delta'' ''C'' ''delta'',
               mkEdge ''e3'' ''C'' ''delta'' ''A'' ''delta'']\<rparr>"

definition feedbackGraph :: Graph where
  "feedbackGraph =
     \<lparr>nodes = [(''INPUT'', createConstantNode ''INPUT'' (Finite 1)), (''A'', createVariableNode ''A'' (Finite 0)),
               (''B'', createVariableNode ''B'' (Finite 0))],
      edges = [mkEdge ''e0'' ''INPUT'' ''delta'' ''A'' ''delta'',
               mkEdge ''e1'' ''A'' ''delta'' ''B'' ''delta'',
               mkEdge ''e2'' ''B'' ''delta'' ''A'' ''delta'']\<rparr>"

definition convergingGraph :: Graph where
  "convergingGraph =
     \<lparr>nodes = [(''A'', createConstantNode ''A'' (roundToDouble (5/100))), (''B'', createVariableNode ''B'' (Finite 0))],
      edges = [mkEdge ''e1'' ''A'' ''delta'' ''B'' ''delta'']\<rparr>"

definition danglingSourceGraph :: Graph where
  "danglingSourceGraph =
     \<lparr>nodes = [(''A'', createVariableNode ''A'' (Finite 0))],
      edges = [mkEdge ''e1'' ''Z'' ''delta'' ''A'' ''delta'']\<rparr>"

definition danglingTargetGraph :: Graph where
  "danglingTargetGraph =
     \<lparr>nodes = [(''A'', createConstantNode ''A'' (Finite 1))],
      edges = [mkEdge ''e1'' ''A'' ''delta'' ''Z'' ''delta'']\<rparr>"

definition fanInGraph :: Graph where
  "fanInGraph =
     \<lparr>nodes = [(''A1'', createConstantNode ''A1'' (Finite 2)), (''A2'', createConstantNode ''A2'' (Finite 3)),
               (''B'', createVariableNode ''B'' (Finite 0))],
      edges = [mkEdge ''e1'' ''A1'' ''delta'' ''B'' ''delta'',
               mkEdge ''e2'' ''A2'' ''delta'' ''B'' ''delta'']\<rparr>"

definition sharedNameNode :: "NodeId \<Rightarrow> NodeDefinition" where
  "sharedNameNode ident =
     \<lparr>node_id = ident, node_type = ''sum'',
      state = VObj [],
      inputs = [(''a'', \<lparr>port_id = ''a'', port_name = ''x'', port_kind = InputKind\<rparr>),
                (''b'', \<lparr>port_id = ''b'', port_name = ''x'', port_kind = InputKind\<rparr>)],
      outputs = [(''out'', \<lparr>port_id = ''out'', port_name = ''out'', port_kind = OutputKind\<rparr>)],
      calculate = (\<lambda>inputValues ctx currentState.
         Inr (VObj [(''out'', (case inputValues ''x'' of Some (Number v) \<Rightarrow> VNum v | _ \<Rightarrow> VUndefined))],
              currentState))\<rparr>"

definition sharedNameGraph :: Graph where
  "sharedNameGraph =
     \<lparr>nodes = [(''S1'', createConstantNode ''S1'' (Finite 1)), (''S2'', createConstantNode ''S2'' (Finite 2)),
               (''N'', sharedNameNode ''N'')],
      edges = [mkEdge ''e1'' ''S1'' ''delta'' ''N'' ''a'',
               mkEdge ''e2'' ''S2'' ''delta'' ''N'' ''b'']\<rparr>"

definition oneEdgeGraph :: Graph where
  "oneEdgeGraph =
     \<lparr>nodes = [(''S1'', createConstantNode ''S1'' (Finite 1)), (''N'', sharedNameNode ''N'')],
      edges = [mkEdge ''e1'' ''S1'' ''delta'' ''N'' ''a'']\<rparr>"

definition twoPortNode :: "NodeId \<Rightarrow> NodeDefinition" where
  "twoPortNode ident =
     \<lparr>node_id = ident, node_type = ''pair'',
      state = VObj [],
      inputs = [(''p'', \<lparr>port_id = ''p'', port_name = ''p'', port_kind = InputKind\<rparr>),
                (''q'', \<lparr>port_id = ''q'', port_name = ''q'', port_kind = InputKind\<rparr>)],
      outputs = [],
      calculate = (\<lambda>inputValues ctx currentState. Inr (VObj [], currentState))\<rparr>"

definition twoPortGraph :: Graph where
  "twoPortGraph =
     \<lparr>nodes = [(''S1'', createConstantNode ''S1'' (Finite 1)), (''N'', twoPortNode ''N'')],
      edges = [mkEdge ''e1'' ''S1'' ''delta'' ''N'' ''p'']\<rparr>"

definition emptyIdGraph :: Graph where
  "emptyIdGraph =
     \<lparr>nodes = [(''r'', createVariableNode ''r'' (Finite 0)), ('''', createVariableNode '''' (Finite 0)),
               (''b'', createVariableNode ''b'' (Finite 0))],
      edges = [mkEdge ''e1'' ''r'' ''delta'' '''' ''delta'',
               mkEdge ''e2'' ''r'' ''delta'' ''b'' ''delta'',
               mkEdge ''e3'' ''b'' ''delta'' '''' ''delta'']\<rparr>"

definition emptyIdPairGraph :: Graph where
  "emptyIdPairGraph =
     \<lparr>nodes = [(''A'', createVariableNode ''A'' (Finite 0)), ('''', createVariableNode '''' (Finite 0))],
      edges = []\<rparr>"

text \<open>
  For the sort on graphs without cycles. \<open>edgeRel\<close> is the edges between nodes of
  the graph, as a relation. \<open>visitedNodes\<close> is the nodes the search of \<open>findSCCs\<close> has
  given an index. \<open>tinv\<close> is what holds of the state of the search between calls when
  no id is the empty string and no cycle is found: indices are below the counter, the
  \<open>onStack\<close> flags say what is on the stack, every component is a single node, and the
  components and the stack hold every visited node once. \<open>frame\<close> is what a call
  leaves as it was.
\<close>

definition edgeRel :: "Graph \<Rightarrow> (NodeId \<times> NodeId) set" where
  "edgeRel g = {(fromNodeId e, toNodeId e) | e. e \<in> set (edges g) \<and>
                  fromNodeId e \<in> fst ` set (nodes g) \<and> toNodeId e \<in> fst ` set (nodes g)}"

definition visitedNodes :: "(NodeId \<rightharpoonup> NodeData) \<Rightarrow> NodeId set" where
  "visitedNodes nd = {v. \<exists>d. nd v = Some d \<and> nd_index d \<noteq> -1}"

definition tinv :: "tarjan \<Rightarrow> bool" where
  "tinv st \<longleftrightarrow>
     0 \<le> t_index st \<and>
     (\<forall>u d. nodeData st u = Some d \<longrightarrow> nd_index d < t_index st \<and> (onStack d \<longleftrightarrow> u \<in> set (t_stack st))) \<and>
     (\<forall>c \<in> set (sccs st). \<exists>w. c = [w]) \<and>
     [] \<notin> dom (nodeData st) \<and>
     distinct (concat (sccs st) @ t_stack st) \<and>
     set (concat (sccs st)) \<union> set (t_stack st) = visitedNodes (nodeData st)"

definition frame :: "tarjan \<Rightarrow> tarjan \<Rightarrow> bool" where
  "frame st st' \<longleftrightarrow>
     dom (nodeData st') = dom (nodeData st) \<and>
     t_stack st' = t_stack st \<and>
     t_index st \<le> t_index st' \<and>
     unvisited (nodeData st') \<subseteq> unvisited (nodeData st) \<and>
     (\<forall>u. u \<notin> unvisited (nodeData st) \<longrightarrow> nodeData st' u = nodeData st u)"

text \<open>
  A component graph over the components \<open>0, ..., n - 1\<close> with no successor listed
  twice, and its edges as a relation. \<open>pending\<close> is the predecessors of a component that
  are not in the result yet; \<open>kinv\<close> is the loop invariant of Kahn's algorithm: the
  \<open>inDegree\<close> of a component counts its pending predecessors, the queue and the result
  share no component, the queue holds components with no pending predecessor and, with
  the result, all of them, and every component of the result comes after its
  predecessors.
\<close>

definition wfcg :: "nat \<Rightarrow> (nat \<times> nat list) list \<Rightarrow> bool" where
  "wfcg n cg \<longleftrightarrow> map fst cg = [0..<n] \<and> (\<forall>(i, s) \<in> set cg. distinct s \<and> set s \<subseteq> {0..<n})"

definition compRel :: "(nat \<times> nat list) list \<Rightarrow> (nat \<times> nat) set" where
  "compRel cg = {(i, j). \<exists>s. map_of cg i = Some s \<and> j \<in> set s}"

definition pending :: "(nat \<times> nat list) list \<Rightarrow> nat list \<Rightarrow> nat \<Rightarrow> nat set" where
  "pending cg result j = {i. i \<notin> set result \<and> (i, j) \<in> compRel cg}"

definition kinv :: "nat \<Rightarrow> (nat \<times> nat list) list \<Rightarrow> nat list \<Rightarrow> (nat \<times> int) list \<Rightarrow> nat list \<Rightarrow> bool" where
  "kinv n cg queue inDegree result \<longleftrightarrow>
     (\<forall>j. degreeOf inDegree j = int (card (pending cg result j))) \<and>
     distinct (result @ queue) \<and> set (result @ queue) \<subseteq> {0..<n} \<and>
     (\<forall>j \<in> set queue. pending cg result j = {}) \<and>
     (\<forall>j < n. pending cg result j = {} \<longrightarrow> j \<in> set (result @ queue)) \<and>
     (\<forall>q < length result. \<forall>i. (i, result ! q) \<in> compRel cg \<longrightarrow> i \<in> set (take q result))"

text \<open>
  Two more nodes for the examples. \<open>namedPortNode\<close> has one input port, of id \<open>in\<close> and
  of the name given; \<open>namedPortGraph\<close> feeds it the constant 1.
\<close>

definition namedPortNode :: "NodeId \<Rightarrow> string \<Rightarrow> NodeDefinition" where
  "namedPortNode ident nm =
     \<lparr>node_id = ident, node_type = ''probe'',
      state = VObj [],
      inputs = [(''in'', \<lparr>port_id = ''in'', port_name = nm, port_kind = InputKind\<rparr>)],
      outputs = [],
      calculate = (\<lambda>inputValues ctx currentState. Inr (VObj [], currentState))\<rparr>"

definition namedPortGraph :: "string \<Rightarrow> Graph" where
  "namedPortGraph nm =
     \<lparr>nodes = [(''S1'', createConstantNode ''S1'' (Finite 1)), (''N'', namedPortNode ''N'' nm)],
      edges = [mkEdge ''e1'' ''S1'' ''delta'' ''N'' ''in'']\<rparr>"

text \<open>
  The edges a run in the order \<open>ord\<close> looks at: those into an input port that exists,
  on a node that is in the order and in the graph.
\<close>

definition gathered :: "Graph \<Rightarrow> NodeId list \<Rightarrow> Edge \<Rightarrow> bool" where
  "gathered g ord e \<longleftrightarrow>
     toNodeId e \<in> set ord \<and>
     (\<exists>node p. map_of (nodes g) (toNodeId e) = Some node \<and> findPort (inputs node) (toPortId e) = Some p)"

text \<open>
  The results of an iteration are stable against those of the one before, within a
  threshold, when both hold the same number of nodes, and for every node of the
  current results its output is an object, the previous results hold an object for
  it, and for every number among the fields of the current output the previous
  output holds a number under the same key, the absolute difference of the two not
  being \<open>>=\<close> the threshold.
\<close>

definition stable :: "double \<Rightarrow> results \<Rightarrow> results \<Rightarrow> bool" where
  "stable threshold previous current \<longleftrightarrow>
     map_size previous = map_size current \<and>
     (\<forall>(nodeId, currentOutputs) \<in> set current.
        \<exists>cf pf. currentOutputs = VObj cf \<and> map_of previous nodeId = Some (VObj pf) \<and>
          (\<forall>(portId, v) \<in> set cf. \<forall>c. v = VNum c \<longrightarrow>
             (\<exists>p. map_of pf portId = Some (VNum p) \<and> \<not> dge (dabs (dsub c p)) threshold)))"

text \<open>
  \<open>unknownPortGraph\<close> has, beside the edge from \<open>A\<close> to \<open>B\<close>, an edge into \<open>B\<close> at a
  port \<open>B\<close> does not have, coming from \<open>Z\<close>, which is no node. \<open>accumulatorNode\<close> keeps a
  total, adds its input to it and emits the total; \<open>accumulatorGraph\<close> feeds it the
  constant 0.1.
\<close>

definition unknownPortGraph :: Graph where
  "unknownPortGraph =
     \<lparr>nodes = [(''A'', createConstantNode ''A'' (Finite 1)), (''B'', createVariableNode ''B'' (Finite 0))],
      edges = [mkEdge ''e1'' ''A'' ''delta'' ''B'' ''delta'',
               mkEdge ''e2'' ''Z'' ''delta'' ''B'' ''nope'']\<rparr>"

definition knownPortGraph :: Graph where
  "knownPortGraph =
     \<lparr>nodes = [(''A'', createConstantNode ''A'' (Finite 1)), (''B'', createVariableNode ''B'' (Finite 0))],
      edges = [mkEdge ''e1'' ''A'' ''delta'' ''B'' ''delta'']\<rparr>"

definition accumulatorNode :: "NodeId \<Rightarrow> NodeDefinition" where
  "accumulatorNode ident =
     \<lparr>node_id = ident, node_type = ''accumulator'',
      state = VObj [(''total'', VNum (Finite 0))],
      inputs = [(''delta'', \<lparr>port_id = ''delta'', port_name = ''delta'', port_kind = InputKind\<rparr>)],
      outputs = [(''total'', \<lparr>port_id = ''total'', port_name = ''total'', port_kind = OutputKind\<rparr>)],
      calculate = (\<lambda>inputValues ctx currentState.
         case (inputValues ''delta'', getProp currentState ''total'') of
           (Some (Number d), VNum t) \<Rightarrow> Inr (VObj [(''total'', VNum (dadd t d))], VObj [(''total'', VNum (dadd t d))])
         | _ \<Rightarrow> Inl (NodeError ''non-numeric''))\<rparr>"

definition accumulatorGraph :: Graph where
  "accumulatorGraph =
     \<lparr>nodes = [(''A'', createConstantNode ''A'' (roundToDouble (1/10))), (''B'', accumulatorNode ''B'')],
      edges = [mkEdge ''e1'' ''A'' ''delta'' ''B'' ''delta'']\<rparr>"

lemmas engine_defs = gatherInputs_def edgeValue_def findPort_def backEdgeKey_def mkEdge_def
  createConstantNode_def createVariableNode_def addToInput_def objectPrototype_def Let_def

section \<open>Numbers: what the definitions compute\<close>

lemma pow2_powi: "pow2 k = 2 powi k"
  by (simp add: pow2_def power_int_def field_simps)

lemma pow2_pos: "0 < pow2 k"
  by (simp add: pow2_powi)

lemma pow2_add: "pow2 (a + b) = pow2 a * pow2 b"
  by (simp add: pow2_powi power_int_add)

lemma pow2_strict_mono: "a < b \<Longrightarrow> pow2 a < pow2 b"
  by (simp add: pow2_powi power_int_strict_increasing)

text \<open>The test \<open>overflows\<close> is the comparison with \<open>2^1024\<close>, for a mantissa of 53 bits.\<close>

lemma overflows_iff:
  assumes "0 \<le> m" "m \<le> 2 ^ 53"
  shows "overflows m e \<longleftrightarrow> pow2 1024 \<le> of_int m * pow2 e"
proof (cases "e < 971")
  case True
  have "of_int m * pow2 e \<le> pow2 53 * pow2 e"
  proof (rule mult_right_mono)
    have "(of_int m :: rat) \<le> of_int (2 ^ 53)" using assms(2) by (simp only: of_int_le_iff)
    then show "(of_int m :: rat) \<le> pow2 53" by (simp add: pow2_def)
    show "0 \<le> pow2 e" using pow2_pos [of e] by simp
  qed
  also have "\<dots> = pow2 (53 + e)" by (simp add: pow2_add)
  also have "\<dots> < pow2 1024" using True by (intro pow2_strict_mono) simp
  finally show ?thesis using True by (simp add: overflows_def)
next
  case False
  have "pow2 1024 = pow2 (1024 - e) * pow2 e" by (simp add: pow2_add [symmetric])
  then have "pow2 1024 \<le> of_int m * pow2 e \<longleftrightarrow> pow2 (1024 - e) \<le> of_int m"
    using pow2_pos [of e] by simp
  then show ?thesis using False by (simp add: overflows_def)
qed

text \<open>
  Some sums as the language computes them: 0.1 + 0.2 is not the double nearest 0.3
  but the next one; 0.05 + 0.05 is the double nearest 0.1; adding 1 to \<open>2^53\<close> changes
  nothing, a tie going to the even mantissa; \<open>x - x\<close> is the positive zero, and the
  two zeros compare equal.
\<close>

lemma double_examples:
  "roundToDouble (1/10) = Finite (3602879701896397 / 2 ^ 55)"
  "roundToDouble (3/10) = Finite (5404319552844595 / 2 ^ 54)"
  "dadd (roundToDouble (1/10)) (roundToDouble (2/10)) = Finite (5404319552844596 / 2 ^ 54)"
  "dadd (roundToDouble (5/100)) (roundToDouble (5/100)) = roundToDouble (1/10)"
  "dadd (Finite (2 ^ 53)) (Finite 1) = Finite (2 ^ 53)"
  "dadd (Finite (2 ^ 53 + 2)) (Finite 1) = Finite (2 ^ 53 + 4)"
  "dsub (Finite 1) (Finite 1) = Finite 0"
  "dadd (Finite 0) NegZero = Finite 0"
  "dge (Finite 0) NegZero" "\<not> dlt NegZero (Finite 0)"
  "\<not> dge NaN (Finite 0)" "\<not> dlt NaN (Finite 0)"
  by code_simp+

section \<open>Graph.ts: addNode leaves its argument alone\<close>

lemma store_ok_fresh: "store_ok s \<Longrightarrow> next_free s \<notin> dom (cells s)"
  by (auto simp: store_ok_def)

lemma update_new_key: "k \<notin> fst ` set al \<Longrightarrow> AList.update k v al = al @ [(k, v)]"
  by (induction al) auto

text \<open>
  C9. In a well-formed store, \<open>addNode\<close> on a live graph object \<open>g\<close> returns; no
  cell that was live before the call has changed, so \<open>g\<close> denotes the same graph and
  \<open>g.nodes.size\<close> is what it was. When the node's id is a key of \<open>g.nodes\<close> the call
  throws the duplicate-id error; otherwise it returns a graph object at two new
  addresses, whose \<open>nodes\<close> Map is that of \<open>g\<close> with the node appended and whose
  size is the size of \<open>g.nodes\<close> plus one.
\<close>

theorem addNode_frame:
  assumes ok: "store_ok s" and rd: "readGraph s g = Some gr"
  shows "\<exists>r s'. addNode s g n = Some (r, s') \<and>
           (\<forall>a. a \<in> dom (cells s) \<longrightarrow> cells s' a = cells s a) \<and>
           readGraph s' g = Some gr \<and>
           graph_size s' g = graph_size s g \<and>
           (if map_has (nodes gr) (node_id n)
            then r = Inl (DuplicateNodeId (node_id n))
            else \<exists>g'. r = Inr g' \<and>
                   readGraph s' g' = Some \<lparr>nodes = nodes gr @ [(node_id n, n)], edges = edges gr\<rparr> \<and>
                   graph_size s' g' = Some (map_size (nodes gr) + 1) \<and>
                   nodes_ref g' \<notin> dom (cells s) \<and> edges_ref g' \<notin> dom (cells s))"
proof -
  from rd obtain ns es where
    c1: "cells s (nodes_ref g) = Some (MapCell ns)" and
    c2: "cells s (edges_ref g) = Some (ArrayCell es)" and
    gr: "gr = \<lparr>nodes = ns, edges = es\<rparr>"
    by (auto simp: readGraph_def split: option.splits cell.splits)
  have fresh: "next_free s \<notin> dom (cells s)" using ok by (rule store_ok_fresh)
  have fresh2: "Suc (next_free s) \<notin> dom (cells s)" using ok by (auto simp: store_ok_def)
  have n1: "nodes_ref g \<noteq> next_free s" "edges_ref g \<noteq> next_free s"
           "nodes_ref g \<noteq> Suc (next_free s)" "edges_ref g \<noteq> Suc (next_free s)"
    using c1 c2 fresh fresh2 by auto
  show ?thesis
  proof (cases "map_has ns (node_id n)")
    case True
    then show ?thesis using c1 c2 gr fresh n1
      by (auto simp: addNode_def alloc_def readGraph_def graph_size_def)
  next
    case False
    then have "node_id n \<notin> fst ` set ns"
      by (auto simp: map_has_def map_of_eq_None_iff)
    then have upd: "AList.update (node_id n) n ns = ns @ [(node_id n, n)]"
      by (rule update_new_key)
    show ?thesis using False c1 c2 gr fresh fresh2 n1 upd
      by (auto simp: addNode_def alloc_def readGraph_def graph_size_def map_size_def)
  qed
qed

text \<open>
  The theorem at the store \<open>createGraph\<close> leaves and the node \<open>createVariableNode("A", 0)\<close>:
  the empty graph keeps size 0 and the returned graph has size 1.
\<close>

theorem addNode_frame_witness:
  "store_ok (snd (createGraph \<lparr>cells = Map.empty, next_free = 0\<rparr>)) \<and>
   readGraph (snd (createGraph \<lparr>cells = Map.empty, next_free = 0\<rparr>))
             (fst (createGraph \<lparr>cells = Map.empty, next_free = 0\<rparr>)) = Some \<lparr>nodes = [], edges = []\<rparr> \<and>
   (\<exists>g' s'. addNode (snd (createGraph \<lparr>cells = Map.empty, next_free = 0\<rparr>))
                    (fst (createGraph \<lparr>cells = Map.empty, next_free = 0\<rparr>))
                    (createVariableNode ''A'' (Finite 0)) = Some (Inr g', s') \<and>
             graph_size s' (fst (createGraph \<lparr>cells = Map.empty, next_free = 0\<rparr>)) = Some 0 \<and>
             graph_size s' g' = Some 1)"
proof -
  let ?s = "snd (createGraph \<lparr>cells = Map.empty, next_free = 0\<rparr>)"
  let ?g = "fst (createGraph \<lparr>cells = Map.empty, next_free = 0\<rparr>)"
  have ok: "store_ok ?s"
    by (auto simp: createGraph_def alloc_def store_ok_def split: if_splits)
  have rd: "readGraph ?s ?g = Some \<lparr>nodes = [], edges = []\<rparr>"
    by (simp add: createGraph_def alloc_def readGraph_def)
  have sz: "graph_size ?s ?g = Some 0"
    by (simp add: graph_size_def rd map_size_def)
  from addNode_frame [OF ok rd, of "createVariableNode ''A'' (Finite 0)"] sz
  have "\<exists>g' s'. addNode ?s ?g (createVariableNode ''A'' (Finite 0)) = Some (Inr g', s') \<and>
          graph_size s' ?g = Some 0 \<and> graph_size s' g' = Some 1"
    by (auto simp: map_has_def map_size_def)
  with ok rd show ?thesis by blast
qed

section \<open>Topology: the sort always returns\<close>

text \<open>
  \<open>strongConnect\<close> on an unvisited node returns when the depth it is given is at
  least the number of unvisited nodes; so \<open>findSCCs\<close>, which starts with the number of
  nodes, never runs out of depth, and the pop loop always finds the node it looks
  for on the stack.
\<close>

lemma extends_refl: "extends st st"
  by (simp add: extends_def)

lemma extends_trans: "extends a b \<Longrightarrow> extends b c \<Longrightarrow> extends a c"
  by (auto simp: extends_def)

lemma setLowLink_dom [simp]: "dom (setLowLink n l nd) = dom nd"
  by (auto simp: setLowLink_def split: option.splits)

lemma setLowLink_unvisited [simp]: "unvisited (setLowLink n l nd) = unvisited nd"
  by (auto simp: setLowLink_def unvisited_def split: option.splits if_splits)

lemma clearOnStack_dom [simp]: "dom (clearOnStack n nd) = dom nd"
  by (auto simp: clearOnStack_def split: option.splits)

lemma clearOnStack_unvisited [simp]: "unvisited (clearOnStack n nd) = unvisited nd"
  by (auto simp: clearOnStack_def unvisited_def split: option.splits if_splits)

lemma extends_setLowLink: "extends st (st\<lparr>nodeData := setLowLink n l (nodeData st)\<rparr>)"
  by (simp add: extends_def)

lemma popScc_Some:
  "v \<in> set stack \<Longrightarrow>
     \<exists>stack' nd' scc'. popScc v stack nd scc = Some (stack', nd', scc') \<and>
        stack' = tl (dropWhile (\<lambda>w. w \<noteq> v) stack) \<and> dom nd' = dom nd \<and> unvisited nd' = unvisited nd"
proof (induction stack arbitrary: nd scc)
  case Nil
  then show ?case by simp
next
  case (Cons w stack)
  show ?case
  proof (cases "w = v")
    case True
    then show ?thesis by (simp add: Let_def)
  next
    case False
    with Cons.prems have "v \<in> set stack" by simp
    from Cons.IH [OF this, of "if w \<noteq> [] then clearOnStack w nd else nd"
                               "if w \<noteq> [] then scc @ [w] else scc"] False
    show ?thesis by (auto simp: Let_def)
  qed
qed

lemma tl_dropWhile_suffix:
  "\<exists>ys. tl (dropWhile (\<lambda>w. w \<noteq> v) (xs @ v # old)) = ys @ old"
proof (cases "v \<in> set xs")
  case True
  then have "dropWhile (\<lambda>w. w \<noteq> v) (xs @ v # old) = dropWhile (\<lambda>w. w \<noteq> v) xs @ v # old"
    by (simp add: dropWhile_append1)
  moreover have "dropWhile (\<lambda>w. w \<noteq> v) xs \<noteq> []" using True by (simp add: dropWhile_eq_Nil_conv)
  ultimately show ?thesis by (simp add: tl_append split: list.splits)
next
  case False
  then have "dropWhile (\<lambda>w. w \<noteq> v) (xs @ v # old) = v # old"
    by (induction xs) auto
  then show ?thesis by simp
qed

lemma unvisited_mark:
  "0 \<le> i \<Longrightarrow> unvisited (nd(v \<mapsto> \<lparr>nd_index = i, lowLink = l, onStack = b\<rparr>)) = unvisited nd - {v}"
  by (auto simp: unvisited_def)

lemma strongConnect_total:
  "(finite (dom (nodeData st)) \<longrightarrow> 0 \<le> t_index st \<longrightarrow> v \<in> unvisited (nodeData st) \<longrightarrow>
      card (unvisited (nodeData st)) \<le> depth \<longrightarrow>
      (\<exists>st'. strongConnect depth g v st = Some st' \<and> extends st st'))"
  "(finite (dom (nodeData st2)) \<longrightarrow> 0 \<le> t_index st2 \<longrightarrow>
      card (unvisited (nodeData st2)) \<le> depth2 \<longrightarrow>
      (\<exists>st'. visitSuccessors depth2 g2 v2 succs st2 = Some st' \<and> extends st2 st'))"
proof (induction depth g v st and depth2 g2 v2 succs st2 rule: strongConnect_visitSuccessors.induct)
  case (1 graph nodeId st)
  show ?case
  proof (intro impI)
    assume fin: "finite (dom (nodeData st))" and v: "nodeId \<in> unvisited (nodeData st)"
      and c: "card (unvisited (nodeData st)) \<le> 0"
    have "unvisited (nodeData st) \<subseteq> dom (nodeData st)" by (auto simp: unvisited_def)
    with fin have "finite (unvisited (nodeData st))" by (rule rev_finite_subset)
    with c v show "\<exists>st'. strongConnect 0 graph nodeId st = Some st' \<and> extends st st'" by auto
  qed
next
  case (2 depth graph nodeId st)
  let ?st1 = "st\<lparr>t_index := t_index st + 1, t_stack := nodeId # t_stack st,
                 nodeData := (nodeData st)(nodeId \<mapsto>
                    \<lparr>nd_index = t_index st, lowLink = t_index st, onStack = True\<rparr>)\<rparr>"
  show ?case
  proof (intro impI)
    assume fin: "finite (dom (nodeData st))" and i0: "0 \<le> t_index st"
      and v: "nodeId \<in> unvisited (nodeData st)"
      and c: "card (unvisited (nodeData st)) \<le> Suc depth"
    have sub: "unvisited (nodeData st) \<subseteq> dom (nodeData st)" by (auto simp: unvisited_def)
    with fin have finU: "finite (unvisited (nodeData st))" by (rule rev_finite_subset)
    have vd: "nodeId \<in> dom (nodeData st)" using v sub by blast
    have U1: "unvisited (nodeData ?st1) = unvisited (nodeData st) - {nodeId}"
      using i0 by (simp add: unvisited_mark)
    have "card (unvisited (nodeData st) - {nodeId}) \<le> depth"
      using c v finU by simp
    then have c1: "card (unvisited (nodeData ?st1)) \<le> depth"
      by (simp only: U1)
    have d1: "dom (nodeData ?st1) = dom (nodeData st)" using vd by auto
    have e1: "extends st ?st1" using U1 d1 by (simp add: extends_def del: dom_fun_upd)
    have fin1: "finite (dom (nodeData ?st1))" using fin d1 by (simp only:)
    have i1: "0 \<le> t_index ?st1" using i0 by simp
    from "2.IH" [OF refl] fin1 i1 c1
    obtain st2 where vs: "visitSuccessors depth graph nodeId (getSuccessors graph nodeId) ?st1 = Some st2"
      and e2: "extends ?st1 st2"
      by blast
    from e2 obtain xs where stk: "t_stack st2 = xs @ nodeId # t_stack st"
      by (auto simp: extends_def)
    have e12: "extends st st2" using e1 e2 by (rule extends_trans)
    show "\<exists>st'. strongConnect (Suc depth) graph nodeId st = Some st' \<and> extends st st'"
    proof (cases "lowLinkOf (nodeData st2) nodeId = indexOfNode (nodeData st2) nodeId")
      case False
      then show ?thesis using vs e12 by (simp add: Let_def)
    next
      case True
      have "nodeId \<in> set (t_stack st2)" using stk by simp
      from popScc_Some [OF this, of "nodeData st2" "[]"]
      obtain stack' nd' scc' where
        p: "popScc nodeId (t_stack st2) (nodeData st2) [] = Some (stack', nd', scc')"
        and s': "stack' = tl (dropWhile (\<lambda>w. w \<noteq> nodeId) (t_stack st2))"
        and dn: "dom nd' = dom (nodeData st2)" and un: "unvisited nd' = unvisited (nodeData st2)"
        by blast
      from s' stk tl_dropWhile_suffix [of nodeId xs "t_stack st"]
      obtain ys where ys: "stack' = ys @ t_stack st" by auto
      have "extends st (st2\<lparr>t_stack := stack', nodeData := nd', sccs := sccs st2 @ [scc']\<rparr>)"
        using e12 ys dn un by (simp add: extends_def)
      then show ?thesis using vs True p by (simp add: Let_def)
    qed
  qed
next
  case (3 depth graph nodeId st)
  show ?case by (simp add: extends_refl)
next
  case (4 depth graph nodeId successorId rest st)
  show ?case
  proof (intro impI)
    assume fin: "finite (dom (nodeData st))" and i0: "0 \<le> t_index st"
      and c: "card (unvisited (nodeData st)) \<le> depth"
    have sub: "unvisited (nodeData st) \<subseteq> dom (nodeData st)" by (auto simp: unvisited_def)
    with fin have finU: "finite (unvisited (nodeData st))" by (rule rev_finite_subset)
    show "\<exists>st'. visitSuccessors depth graph nodeId (successorId # rest) st = Some st' \<and> extends st st'"
    proof (cases "nodeData st successorId")
      case None
      with "4.IH"(1) [OF None] fin i0 c show ?thesis by simp
    next
      case (Some successor)
      show ?thesis
      proof (cases "nd_index successor = -1")
        case True
        then have u: "successorId \<in> unvisited (nodeData st)" using Some by (simp add: unvisited_def)
        from "4.IH"(2) [OF Some True] fin i0 u c
        obtain st' where sc: "strongConnect depth graph successorId st = Some st'" and e: "extends st st'"
          by blast
        let ?st'' = "st'\<lparr>nodeData := setLowLink nodeId
                       (min (lowLinkOf (nodeData st') nodeId) (lowLinkOf (nodeData st') successorId))
                       (nodeData st')\<rparr>"
        have e'': "extends st ?st''" using e extends_setLowLink [of st'] by (rule extends_trans)
        have fin'': "finite (dom (nodeData ?st''))" using e fin by (simp add: extends_def)
        have i'': "0 \<le> t_index ?st''" using e i0 by (simp add: extends_def)
        have "card (unvisited (nodeData ?st'')) \<le> card (unvisited (nodeData st))"
          using e finU by (auto simp: extends_def intro: card_mono)
        with c have c'': "card (unvisited (nodeData ?st'')) \<le> depth" by simp
        from "4.IH"(3) [OF Some True sc] fin'' i'' c''
        obtain st3 where "visitSuccessors depth graph nodeId rest ?st'' = Some st3" and "extends ?st'' st3"
          by blast
        then show ?thesis using Some True sc e'' by (auto intro: extends_trans)
      next
        case False
        show ?thesis
        proof (cases "onStack successor")
          case True
          let ?st' = "st\<lparr>nodeData := setLowLink nodeId
                  (min (lowLinkOf (nodeData st) nodeId) (nd_index successor)) (nodeData st)\<rparr>"
          from "4.IH"(4) [OF Some False True] fin i0 c
          obtain st3 where "visitSuccessors depth graph nodeId rest ?st' = Some st3" and "extends ?st' st3"
            by auto
          then show ?thesis using Some False True extends_setLowLink [of st]
            by (auto intro: extends_trans)
        next
          case F2: False
          from "4.IH"(5) [OF Some False F2] fin i0 c
          show ?thesis using Some False F2 by simp
        qed
      qed
    qed
  qed
qed

lemma runTarjan_total:
  "finite (dom (nodeData st)) \<Longrightarrow> 0 \<le> t_index st \<Longrightarrow> card (unvisited (nodeData st)) \<le> depth \<Longrightarrow>
     set ks \<subseteq> dom (nodeData st) \<Longrightarrow>
     \<exists>st'. runTarjan depth g ks st = Some st'"
proof (induction ks arbitrary: st)
  case Nil
  then show ?case by simp
next
  case (Cons k ks)
  have sub: "unvisited (nodeData st) \<subseteq> dom (nodeData st)" by (auto simp: unvisited_def)
  with Cons.prems have finU: "finite (unvisited (nodeData st))" by (auto intro: rev_finite_subset)
  show ?case
  proof (cases "indexOfNode (nodeData st) k = -1")
    case False
    then show ?thesis using Cons by simp
  next
    case True
    show ?thesis
    proof (cases "k \<in> unvisited (nodeData st)")
      case True
      from strongConnect_total(1) [of st k depth g] Cons.prems True
      obtain st' where sc: "strongConnect depth g k st = Some st'" and e: "extends st st'" by blast
      have "card (unvisited (nodeData st')) \<le> card (unvisited (nodeData st))"
        using e finU by (auto simp: extends_def intro: card_mono)
      with Cons.prems e have "\<exists>st''. runTarjan depth g ks st' = Some st''"
        by (intro Cons.IH) (auto simp: extends_def)
      then show ?thesis using sc \<open>indexOfNode (nodeData st) k = -1\<close> by simp
    next
      case False
      with True Cons.prems(4) show ?thesis
        by (auto simp: indexOfNode_def unvisited_def split: option.splits)
    qed
  qed
qed

lemma initNodeData_dom_aux:
  "dom (foldl (\<lambda>nd k. nd(k \<mapsto> \<lparr>nd_index = -1, lowLink = -1, onStack = False\<rparr>)) m ks) = dom m \<union> set ks"
  by (induction ks arbitrary: m) auto

lemma initNodeData_dom: "dom (initNodeData ks) = set ks"
  by (simp add: initNodeData_def initNodeData_dom_aux)

lemma findSCCs_total: "\<exists>sccs0. findSCCs g = Some sccs0"
proof -
  let ?ks = "map fst (nodes g)"
  let ?st = "\<lparr>t_index = 0, t_stack = [], nodeData = initNodeData ?ks, sccs = []\<rparr>"
  have "unvisited (nodeData ?st) \<subseteq> set ?ks"
    using initNodeData_dom [of ?ks] by (auto simp: unvisited_def)
  then have "card (unvisited (nodeData ?st)) \<le> card (set ?ks)"
    by (intro card_mono) auto
  also have "\<dots> \<le> length ?ks" by (rule card_length)
  finally have c: "card (unvisited (nodeData ?st)) \<le> length ?ks" .
  have "\<exists>st'. runTarjan (length ?ks) g ?ks ?st = Some st'"
    by (rule runTarjan_total) (use c initNodeData_dom [of ?ks] in auto)
  then show ?thesis by (auto simp: findSCCs_def Let_def)
qed

lemma modifiedTopologicalSort_total: "\<exists>ord. modifiedTopologicalSort g = Some ord"
  using findSCCs_total [of g] by (auto simp: modifiedTopologicalSort_def)

section \<open>Topology: graphs without cycles\<close>

text \<open>
  On a graph with no cycle among its edges and no node whose id is the empty string,
  Tarjan's search finds one component per node, the component graph has no cycle
  either, and Kahn's algorithm lists every component after its predecessors. So
  \<open>modifiedTopologicalSort\<close> returns every node id once, and the source of every edge
  between two nodes of the graph before its destination.
\<close>

lemma tinv_index: "tinv st \<Longrightarrow> nodeData st u = Some d \<Longrightarrow> nd_index d < t_index st"
  by (simp add: tinv_def)

lemma tinv_onStack: "tinv st \<Longrightarrow> nodeData st u = Some d \<Longrightarrow> onStack d \<longleftrightarrow> u \<in> set (t_stack st)"
  by (simp add: tinv_def)

lemma frame_refl: "frame st st"
  by (simp add: frame_def)

lemma frame_trans: "frame a b \<Longrightarrow> frame b c \<Longrightarrow> frame a c"
  by (auto simp: frame_def)

lemma visited_unvisited: "visitedNodes nd = dom nd - unvisited nd"
  by (auto simp: visitedNodes_def unvisited_def)

lemma setLowLink_same:
  "nd v = Some d \<Longrightarrow> setLowLink v (lowLink d) nd = nd"
  by (auto simp: setLowLink_def fun_eq_iff)

lemma strongConnect_dag:
  "(strongConnect depth g v st = Some st' \<longrightarrow> tinv st \<longrightarrow> v \<in> unvisited (nodeData st) \<longrightarrow>
      dom (nodeData st) = fst ` set (nodes g) \<longrightarrow> acyclic (edgeRel g) \<longrightarrow>
      (\<forall>u \<in> set (t_stack st). (u, v) \<in> (edgeRel g)\<^sup>*) \<longrightarrow>
      tinv st' \<and> frame st st' \<and> v \<notin> unvisited (nodeData st') \<and> t_index st \<le> lowLinkOf (nodeData st') v)"
  "(visitSuccessors depth2 g2 v2 succs st2 = Some st2' \<longrightarrow> tinv st2 \<longrightarrow>
      dom (nodeData st2) = fst ` set (nodes g2) \<longrightarrow> acyclic (edgeRel g2) \<longrightarrow>
      (\<exists>old. t_stack st2 = v2 # old) \<longrightarrow>
      (\<exists>d. nodeData st2 v2 = Some d \<and> lowLink d = nd_index d) \<longrightarrow>
      (\<forall>u \<in> set (t_stack st2). (u, v2) \<in> (edgeRel g2)\<^sup>*) \<longrightarrow>
      (\<forall>w \<in> set succs. w \<in> dom (nodeData st2) \<longrightarrow> (v2, w) \<in> edgeRel g2) \<longrightarrow>
      tinv st2' \<and> frame st2 st2')"
proof (induction depth g v st and depth2 g2 v2 succs st2 arbitrary: st' and st2'
       rule: strongConnect_visitSuccessors.induct)
  case (1 graph nodeId st)
  show ?case by simp
next
  case (2 depth graph nodeId st)
  let ?st1 = "st\<lparr>t_index := t_index st + 1, t_stack := nodeId # t_stack st,
                 nodeData := (nodeData st)(nodeId \<mapsto>
                    \<lparr>nd_index = t_index st, lowLink = t_index st, onStack = True\<rparr>)\<rparr>"
  show ?case
  proof (intro impI)
    assume run: "strongConnect (Suc depth) graph nodeId st = Some st'"
      and inv: "tinv st" and v: "nodeId \<in> unvisited (nodeData st)"
      and dm: "dom (nodeData st) = fst ` set (nodes graph)" and ac: "acyclic (edgeRel graph)"
      and reach: "\<forall>u \<in> set (t_stack st). (u, nodeId) \<in> (edgeRel graph)\<^sup>*"
    from run obtain st2 where
      vs: "visitSuccessors depth graph nodeId (getSuccessors graph nodeId) ?st1 = Some st2"
      by (auto simp: Let_def split: option.splits)
    have i0: "0 \<le> t_index st" using inv by (simp add: tinv_def)
    have vd: "nodeId \<in> dom (nodeData st)" using v by (auto simp: unvisited_def)
    have vne: "nodeId \<noteq> []" using inv vd by (auto simp: tinv_def)
    have vnv: "nodeId \<notin> visitedNodes (nodeData st)" using v by (auto simp: visited_unvisited)
    have vis1: "visitedNodes (nodeData ?st1) = insert nodeId (visitedNodes (nodeData st))"
      using i0 by (auto simp: visitedNodes_def)
    have inv1: "tinv ?st1"
      unfolding tinv_def
    proof (intro conjI)
      show "0 \<le> t_index ?st1" using i0 by simp
      show "\<forall>u d. nodeData ?st1 u = Some d \<longrightarrow>
              nd_index d < t_index ?st1 \<and> (onStack d \<longleftrightarrow> u \<in> set (t_stack ?st1))"
      proof (intro allI impI)
        fix u d assume a: "nodeData ?st1 u = Some d"
        show "nd_index d < t_index ?st1 \<and> (onStack d \<longleftrightarrow> u \<in> set (t_stack ?st1))"
        proof (cases "u = nodeId")
          case True
          with a show ?thesis by auto
        next
          case False
          with a have "nodeData st u = Some d" by simp
          then have "nd_index d < t_index st \<and> (onStack d \<longleftrightarrow> u \<in> set (t_stack st))"
            using tinv_index [OF inv] tinv_onStack [OF inv] by blast
          with False show ?thesis by simp
        qed
      qed
      show "\<forall>c \<in> set (sccs ?st1). \<exists>w. c = [w]" using inv by (simp add: tinv_def)
      show "[] \<notin> dom (nodeData ?st1)" using inv vne by (auto simp: tinv_def)
      show "distinct (concat (sccs ?st1) @ t_stack ?st1)" using inv vnv by (auto simp: tinv_def)
      show "set (concat (sccs ?st1)) \<union> set (t_stack ?st1) = visitedNodes (nodeData ?st1)"
        using inv by (simp only: vis1) (auto simp: tinv_def)
    qed
    have dm1: "dom (nodeData ?st1) = fst ` set (nodes graph)" using dm vd by auto
    have stk1: "\<exists>old. t_stack ?st1 = nodeId # old" by simp
    have low1: "\<exists>d. nodeData ?st1 nodeId = Some d \<and> lowLink d = nd_index d" by simp
    have reach1: "\<forall>u \<in> set (t_stack ?st1). (u, nodeId) \<in> (edgeRel graph)\<^sup>*" using reach by simp
    have succ1: "\<forall>w \<in> set (getSuccessors graph nodeId). w \<in> dom (nodeData ?st1) \<longrightarrow>
                   (nodeId, w) \<in> edgeRel graph"
    proof (intro ballI impI)
      fix w assume w: "w \<in> set (getSuccessors graph nodeId)" and wd: "w \<in> dom (nodeData ?st1)"
      from w obtain e where e: "e \<in> set (edges graph)" "fromNodeId e = nodeId" "toNodeId e = w"
        by (auto simp: getSuccessors_def)
      have "w \<in> fst ` set (nodes graph)" using wd unfolding dm1 .
      moreover have "nodeId \<in> fst ` set (nodes graph)" using vd unfolding dm .
      ultimately show "(nodeId, w) \<in> edgeRel graph" using e by (auto simp: edgeRel_def)
    qed
    from "2.IH" [OF refl] vs inv1 dm1 ac stk1 low1 reach1 succ1
    have inv2: "tinv st2" and fr2: "frame ?st1 st2" by blast+
    have stk2: "t_stack st2 = nodeId # t_stack st" using fr2 by (simp add: frame_def)
    have nv1: "nodeId \<notin> unvisited (nodeData ?st1)" using i0 by (auto simp: unvisited_def)
    have d2: "nodeData st2 nodeId = Some \<lparr>nd_index = t_index st, lowLink = t_index st, onStack = True\<rparr>"
      using fr2 nv1 by (simp add: frame_def)
    have root: "lowLinkOf (nodeData st2) nodeId = indexOfNode (nodeData st2) nodeId"
      using d2 by (simp add: lowLinkOf_def indexOfNode_def)
    have pop: "popScc nodeId (t_stack st2) (nodeData st2) [] =
                 Some (t_stack st, clearOnStack nodeId (nodeData st2), [nodeId])"
      using stk2 vne by (simp add: Let_def)
    from run vs root pop
    have st': "st' = st2\<lparr>t_stack := t_stack st, nodeData := clearOnStack nodeId (nodeData st2),
                         sccs := sccs st2 @ [[nodeId]]\<rparr>"
      by (simp add: Let_def)
    have cl: "clearOnStack nodeId (nodeData st2) =
                (nodeData st2)(nodeId \<mapsto> \<lparr>nd_index = t_index st, lowLink = t_index st, onStack = False\<rparr>)"
      using d2 by (simp add: clearOnStack_def)
    have vis': "visitedNodes (nodeData st') = visitedNodes (nodeData st2)"
      using d2 i0 by (auto simp: st' cl visitedNodes_def)
    have vin2: "nodeId \<in> visitedNodes (nodeData st2)" using d2 i0 by (auto simp: visitedNodes_def)
    have inv': "tinv st'"
      unfolding tinv_def
    proof (intro conjI)
      show "0 \<le> t_index st'" using inv2 by (simp add: st' tinv_def)
      have dist2: "distinct (concat (sccs st2) @ nodeId # t_stack st)"
        using inv2 stk2 by (simp add: tinv_def)
      show "\<forall>u d. nodeData st' u = Some d \<longrightarrow>
              nd_index d < t_index st' \<and> (onStack d \<longleftrightarrow> u \<in> set (t_stack st'))"
      proof (intro allI impI)
        fix u d assume a: "nodeData st' u = Some d"
        show "nd_index d < t_index st' \<and> (onStack d \<longleftrightarrow> u \<in> set (t_stack st'))"
        proof (cases "u = nodeId")
          case True
          have "t_index st < t_index st2" using tinv_index [OF inv2 d2] by simp
          with a True dist2 show ?thesis by (auto simp: st' cl)
        next
          case False
          with a have "nodeData st2 u = Some d" by (simp add: st' cl)
          then have "nd_index d < t_index st2 \<and> (onStack d \<longleftrightarrow> u \<in> set (t_stack st2))"
            using tinv_index [OF inv2] tinv_onStack [OF inv2] by blast
          with False stk2 show ?thesis by (simp add: st')
        qed
      qed
      show "\<forall>c \<in> set (sccs st'). \<exists>w. c = [w]" using inv2 by (auto simp: st' tinv_def)
      show "[] \<notin> dom (nodeData st')" using inv2 vne by (auto simp: st' cl tinv_def)
      show "distinct (concat (sccs st') @ t_stack st')" using dist2 by (auto simp: st')
      have "set (concat (sccs st2)) \<union> set (t_stack st2) = visitedNodes (nodeData st2)"
        using inv2 by (simp add: tinv_def)
      then show "set (concat (sccs st')) \<union> set (t_stack st') = visitedNodes (nodeData st')"
        unfolding vis' using stk2 by (auto simp: st')
    qed
    have fr': "frame st st'"
      unfolding frame_def
    proof (intro conjI)
      have a: "dom (nodeData st') = dom (nodeData st2)" by (simp add: st')
      have b: "dom (nodeData st2) = dom (nodeData ?st1)" using fr2 unfolding frame_def by blast
      show "dom (nodeData st') = dom (nodeData st)" by (simp only: a b dm1 dm)
      show "t_stack st' = t_stack st" by (simp add: st')
      show "t_index st \<le> t_index st'" using fr2 by (simp add: st' frame_def)
      have u2: "unvisited (nodeData st2) \<subseteq> unvisited (nodeData ?st1)" using fr2 by (simp add: frame_def)
      have u1: "unvisited (nodeData ?st1) \<subseteq> unvisited (nodeData st)"
        using i0 by (auto simp: unvisited_def split: if_splits)
      have "unvisited (nodeData st') \<subseteq> unvisited (nodeData st2)"
        using i0 by (auto simp: st' cl unvisited_def split: if_splits)
      with u1 u2 show "unvisited (nodeData st') \<subseteq> unvisited (nodeData st)" by blast
      show "\<forall>u. u \<notin> unvisited (nodeData st) \<longrightarrow> nodeData st' u = nodeData st u"
      proof (intro allI impI)
        fix u assume u: "u \<notin> unvisited (nodeData st)"
        then have ne: "u \<noteq> nodeId" using v by auto
        from u ne have "u \<notin> unvisited (nodeData ?st1)" by (auto simp: unvisited_def)
        with fr2 have "nodeData st2 u = nodeData ?st1 u" by (simp add: frame_def)
        with ne show "nodeData st' u = nodeData st u" by (simp add: st' cl)
      qed
    qed
    have "nodeId \<notin> unvisited (nodeData st')" using i0 by (auto simp: st' cl unvisited_def)
    moreover have "t_index st \<le> lowLinkOf (nodeData st') nodeId" by (simp add: st' cl lowLinkOf_def)
    ultimately show "tinv st' \<and> frame st st' \<and> nodeId \<notin> unvisited (nodeData st') \<and>
                     t_index st \<le> lowLinkOf (nodeData st') nodeId"
      using inv' fr' by simp
  qed
next
  case (3 depth graph nodeId st)
  show ?case by (auto simp: frame_refl)
next
  case (4 depth graph nodeId successorId rest st)
  show ?case
  proof (intro impI)
    assume run: "visitSuccessors depth graph nodeId (successorId # rest) st = Some st2'"
      and inv: "tinv st" and dm: "dom (nodeData st) = fst ` set (nodes graph)"
      and ac: "acyclic (edgeRel graph)"
      and stk: "\<exists>old. t_stack st = nodeId # old"
      and low: "\<exists>d. nodeData st nodeId = Some d \<and> lowLink d = nd_index d"
      and reach: "\<forall>u \<in> set (t_stack st). (u, nodeId) \<in> (edgeRel graph)\<^sup>*"
      and succ: "\<forall>w \<in> set (successorId # rest). w \<in> dom (nodeData st) \<longrightarrow> (nodeId, w) \<in> edgeRel graph"
    from low obtain dv where dv: "nodeData st nodeId = Some dv" and dvl: "lowLink dv = nd_index dv" by blast
    have succ_rest: "\<forall>w \<in> set rest. w \<in> dom (nodeData st) \<longrightarrow> (nodeId, w) \<in> edgeRel graph"
      using succ by simp
    show "tinv st2' \<and> frame st st2'"
    proof (cases "nodeData st successorId")
      case None
      with run have "visitSuccessors depth graph nodeId rest st = Some st2'" by simp
      with "4.IH"(1) [OF None] inv dm ac stk low reach succ_rest show ?thesis by blast
    next
      case (Some successor)
      then have sd: "successorId \<in> dom (nodeData st)" by auto
      with succ have edge: "(nodeId, successorId) \<in> edgeRel graph" by simp
      show ?thesis
      proof (cases "nd_index successor = -1")
        case True
        then have u: "successorId \<in> unvisited (nodeData st)" using Some by (simp add: unvisited_def)
        from run Some True obtain st1 where
          sc: "strongConnect depth graph successorId st = Some st1"
          by (auto split: option.splits)
        let ?st1' = "st1\<lparr>nodeData := setLowLink nodeId
                       (min (lowLinkOf (nodeData st1) nodeId) (lowLinkOf (nodeData st1) successorId))
                       (nodeData st1)\<rparr>"
        from run Some True sc
        have rest: "visitSuccessors depth graph nodeId rest ?st1' = Some st2'" by simp
        have reach_s: "\<forall>u \<in> set (t_stack st). (u, successorId) \<in> (edgeRel graph)\<^sup>*"
          using reach edge by (auto intro: rtrancl_into_rtrancl)
        from "4.IH"(2) [OF Some True] sc inv u dm ac reach_s
        have inv1: "tinv st1" and fr1: "frame st st1"
          and lo: "t_index st \<le> lowLinkOf (nodeData st1) successorId" by blast+
        have nvis: "nodeId \<notin> unvisited (nodeData st)"
        proof -
          from stk have "nodeId \<in> set (t_stack st)" by auto
          with inv have "nodeId \<in> visitedNodes (nodeData st)" by (auto simp: tinv_def)
          then show ?thesis by (simp add: visited_unvisited)
        qed
        with fr1 have dv1: "nodeData st1 nodeId = Some dv" using dv by (simp add: frame_def)
        have "nd_index dv < t_index st" using tinv_index [OF inv dv] .
        with lo dvl dv1 have "min (lowLinkOf (nodeData st1) nodeId) (lowLinkOf (nodeData st1) successorId) = lowLink dv"
          by (simp add: lowLinkOf_def)
        with dv1 have same: "?st1' = st1" by (simp add: setLowLink_same)
        have dm1: "dom (nodeData st1) = fst ` set (nodes graph)" using fr1 dm by (simp add: frame_def)
        have stk1: "\<exists>old. t_stack st1 = nodeId # old" using fr1 stk by (simp add: frame_def)
        have low1: "\<exists>d. nodeData st1 nodeId = Some d \<and> lowLink d = nd_index d" using dv1 dvl by blast
        have reach1: "\<forall>u \<in> set (t_stack st1). (u, nodeId) \<in> (edgeRel graph)\<^sup>*"
          using fr1 reach by (simp add: frame_def)
        have succ1: "\<forall>w \<in> set rest. w \<in> dom (nodeData st1) \<longrightarrow> (nodeId, w) \<in> edgeRel graph"
          using succ_rest fr1 by (simp add: frame_def)
        from "4.IH"(3) [OF Some True sc] rest same inv1 dm1 ac stk1 low1 reach1 succ1
        have "tinv st2'" and "frame st1 st2'" by auto
        with fr1 show ?thesis by (auto intro: frame_trans)
      next
        case False
        show ?thesis
        proof (cases "onStack successor")
          case True
          have "successorId \<in> set (t_stack st)" using tinv_onStack [OF inv Some] True by simp
          with reach have "(successorId, nodeId) \<in> (edgeRel graph)\<^sup>*" by blast
          from this edge have "(successorId, successorId) \<in> (edgeRel graph)\<^sup>+"
            by (rule rtrancl_into_trancl1)
          with ac show ?thesis by (simp add: acyclic_def)
        next
          case F2: False
          with run Some False have "visitSuccessors depth graph nodeId rest st = Some st2'" by simp
          with "4.IH"(5) [OF Some False F2] inv dm ac stk low reach succ_rest show ?thesis by blast
        qed
      qed
    qed
  qed
qed

lemma runTarjan_dag:
  "runTarjan depth g ks st = Some st' \<Longrightarrow> tinv st \<Longrightarrow> t_stack st = [] \<Longrightarrow>
   dom (nodeData st) = fst ` set (nodes g) \<Longrightarrow> acyclic (edgeRel g) \<Longrightarrow>
   set ks \<subseteq> dom (nodeData st) \<Longrightarrow>
     tinv st' \<and> t_stack st' = [] \<and> dom (nodeData st') = dom (nodeData st) \<and>
     unvisited (nodeData st') \<subseteq> unvisited (nodeData st) - set ks"
proof (induction ks arbitrary: st)
  case Nil
  then show ?case by simp
next
  case (Cons k ks)
  show ?case
  proof (cases "indexOfNode (nodeData st) k = -1")
    case False
    with Cons.prems have run: "runTarjan depth g ks st = Some st'" by simp
    from Cons.prems(6) have sub: "set ks \<subseteq> dom (nodeData st)" by simp
    from Cons.IH [OF run Cons.prems(2-5) sub]
    have r: "tinv st'" "t_stack st' = []" "dom (nodeData st') = dom (nodeData st)"
      "unvisited (nodeData st') \<subseteq> unvisited (nodeData st) - set ks" by blast+
    have "k \<notin> unvisited (nodeData st)" using False
      by (auto simp: unvisited_def indexOfNode_def)
    with r show ?thesis by auto
  next
    case True
    with Cons.prems(6) have u: "k \<in> unvisited (nodeData st)"
      by (auto simp: unvisited_def indexOfNode_def split: option.splits)
    from Cons.prems(1) True obtain st1 where sc: "strongConnect depth g k st = Some st1"
      and run: "runTarjan depth g ks st1 = Some st'"
      by (auto split: option.splits)
    have reach: "\<forall>u \<in> set (t_stack st). (u, k) \<in> (edgeRel g)\<^sup>*" using Cons.prems(3) by simp
    from strongConnect_dag(1) [of depth g k st st1] sc Cons.prems(2) u Cons.prems(4,5) reach
    have inv1: "tinv st1" and fr: "frame st st1" and kv: "k \<notin> unvisited (nodeData st1)" by blast+
    have stk1: "t_stack st1 = []" using fr Cons.prems(3) by (simp add: frame_def)
    have dm1: "dom (nodeData st1) = fst ` set (nodes g)" using fr Cons.prems(4) by (simp add: frame_def)
    have sub1: "set ks \<subseteq> dom (nodeData st1)" using fr Cons.prems(6) by (simp add: frame_def)
    from Cons.IH [OF run inv1 stk1 dm1 Cons.prems(5) sub1]
    have r: "tinv st'" "t_stack st' = []" "dom (nodeData st') = dom (nodeData st1)"
      "unvisited (nodeData st') \<subseteq> unvisited (nodeData st1) - set ks" by blast+
    have "unvisited (nodeData st1) \<subseteq> unvisited (nodeData st)" using fr by (simp add: frame_def)
    with r kv fr show ?thesis by (auto simp: frame_def)
  qed
qed

lemma initNodeData_lookup_aux:
  "foldl (\<lambda>nd k. nd(k \<mapsto> \<lparr>nd_index = -1, lowLink = -1, onStack = False\<rparr>)) m ks u =
     (if u \<in> set ks then Some \<lparr>nd_index = -1, lowLink = -1, onStack = False\<rparr> else m u)"
  by (induction ks arbitrary: m) auto

lemma initNodeData_lookup:
  "initNodeData ks u = (if u \<in> set ks then Some \<lparr>nd_index = -1, lowLink = -1, onStack = False\<rparr> else None)"
  by (simp add: initNodeData_def initNodeData_lookup_aux)

lemma findSCCs_dag:
  assumes ne: "[] \<notin> fst ` set (nodes g)" and ac: "acyclic (edgeRel g)"
  shows "\<exists>vs. findSCCs g = Some (map (\<lambda>v. [v]) vs) \<and> distinct vs \<and> set vs = fst ` set (nodes g)"
proof -
  let ?ks = "map fst (nodes g)"
  let ?st = "\<lparr>t_index = 0, t_stack = [], nodeData = initNodeData ?ks, sccs = []\<rparr>"
  from findSCCs_total [of g] obtain sccs0 where f: "findSCCs g = Some sccs0" by blast
  then obtain st' where run: "runTarjan (length ?ks) g ?ks ?st = Some st'" and s0: "sccs0 = sccs st'"
    by (auto simp: findSCCs_def Let_def)
  have dm: "dom (nodeData ?st) = fst ` set (nodes g)" by (simp add: initNodeData_dom)
  have inv: "tinv ?st"
    using ne by (auto simp: tinv_def initNodeData_lookup visitedNodes_def split: if_splits)
  from runTarjan_dag [OF run inv _ dm ac] dm
  have inv': "tinv st'" and stk: "t_stack st' = []" and dm': "dom (nodeData st') = dom (nodeData ?st)"
    and un: "unvisited (nodeData st') \<subseteq> unvisited (nodeData ?st) - set ?ks" by auto
  have "unvisited (nodeData ?st) \<subseteq> set ?ks" using dm by (auto simp: unvisited_def)
  with un have "unvisited (nodeData st') = {}" by auto
  then have vis: "visitedNodes (nodeData st') = fst ` set (nodes g)"
    using dm' dm by (simp add: visited_unvisited)
  let ?vs = "concat (sccs st')"
  have single: "\<forall>c \<in> set (sccs st'). \<exists>w. c = [w]" using inv' by (simp add: tinv_def)
  have shape: "xs = map (\<lambda>v. [v]) (concat xs)" if "\<forall>c \<in> set xs. \<exists>w. c = [w]" for xs :: "NodeId list list"
    using that by (induction xs) auto
  have "sccs st' = map (\<lambda>v. [v]) ?vs" using shape [OF single] .
  moreover have "distinct ?vs" using inv' stk by (simp add: tinv_def)
  moreover have "set ?vs = fst ` set (nodes g)" using inv' stk vis by (simp add: tinv_def)
  ultimately show ?thesis using f s0 by (intro exI [of _ ?vs]) simp
qed

lemma map_fst_update_present:
  "k \<in> fst ` set al \<Longrightarrow> map fst (AList.update k v al) = map fst al"
  by (induction al) auto

lemma mapNodes_graph:
  "\<forall>i \<ge> k. i \<notin> fst ` set cg \<Longrightarrow>
     fst (mapNodesToComponents (map (\<lambda>v. [v]) vs) k cg m) = cg @ map (\<lambda>i. (i, [])) [k..<k + length vs]"
proof (induction vs arbitrary: k cg m)
  case Nil
  then show ?case by simp
next
  case (Cons v vs)
  have "k \<notin> fst ` set cg" using Cons.prems by auto
  then have upd: "AList.update k [] cg = cg @ [(k, [])]" by (rule update_new_key)
  have fresh: "\<forall>i \<ge> Suc k. i \<notin> fst ` set (cg @ [(k, [])])" using Cons.prems by auto
  have "k < k + length (v # vs)" by simp
  then have "[k..<k + length (v # vs)] = k # [Suc k..<k + length (v # vs)]"
    by (rule upt_conv_Cons)
  moreover have "k + length (v # vs) = Suc k + length vs" by simp
  ultimately have u: "[k..<k + length (v # vs)] = k # [Suc k..<Suc k + length vs]"
    by (simp only:)
  have "fst (mapNodesToComponents (map (\<lambda>v. [v]) (v # vs)) k cg m) =
          fst (mapNodesToComponents (map (\<lambda>v. [v]) vs) (Suc k) (cg @ [(k, [])]) (m(v \<mapsto> k)))"
    by (simp add: upd)
  also have "\<dots> = (cg @ [(k, [])]) @ map (\<lambda>i. (i, [])) [Suc k..<Suc k + length vs]"
    by (rule Cons.IH [OF fresh])
  also have "\<dots> = cg @ map (\<lambda>i. (i, [])) [k..<k + length (v # vs)]"
    by (simp only: u) simp
  finally show ?case .
qed

lemma mapNodes_lookup_notin:
  "u \<notin> set vs \<Longrightarrow> snd (mapNodesToComponents (map (\<lambda>v. [v]) vs) k cg m) u = m u"
  by (induction vs arbitrary: k cg m) auto

lemma mapNodes_lookup:
  "distinct vs \<Longrightarrow> i < length vs \<Longrightarrow>
     snd (mapNodesToComponents (map (\<lambda>v. [v]) vs) k cg m) (vs ! i) = Some (k + i)"
proof (induction vs arbitrary: k cg m i)
  case Nil
  then show ?case by simp
next
  case (Cons v vs)
  show ?case
  proof (cases i)
    case 0
    have "v \<notin> set vs" using Cons.prems by simp
    from mapNodes_lookup_notin [OF this] 0 show ?thesis by simp
  next
    case (Suc j)
    with Cons.prems have "distinct vs" "j < length vs" by simp_all
    from Cons.IH [OF this] Suc show ?thesis by simp
  qed
qed

lemma addComponentEdges_keys:
  "map fst (addComponentEdges es n2c cg) = map fst cg"
proof (induction es arbitrary: cg)
  case Nil
  then show ?case by simp
next
  case (Cons e es)
  show ?case
  proof (cases "n2c (fromNodeId e)")
    case None
    then show ?thesis using Cons.IH by simp
  next
    case (Some i)
    show ?thesis
    proof (cases "n2c (toNodeId e)")
      case None
      then show ?thesis using Some Cons.IH by simp
    next
      case Some2: (Some j)
      show ?thesis
      proof (cases "i \<noteq> j \<and> map_of cg i \<noteq> None")
        case True
        then obtain s where s: "map_of cg i = Some s" by auto
        then have "i \<in> fst ` set cg" by (metis domI dom_map_of_conv_image_fst)
        then have "map fst (AList.update i (set_add s j) cg) = map fst cg"
          by (rule map_fst_update_present)
        then show ?thesis using Some Some2 True s Cons.IH by simp
      next
        case False
        then show ?thesis using Some Some2 Cons.IH by (auto split: option.splits)
      qed
    qed
  qed
qed

lemma addComponentEdges_lookup:
  "map_of cg i = Some s \<Longrightarrow> distinct s \<Longrightarrow>
     \<exists>s'. map_of (addComponentEdges es n2c cg) i = Some s' \<and> distinct s' \<and>
          set s' = set s \<union> {j. \<exists>e \<in> set es. n2c (fromNodeId e) = Some i \<and> n2c (toNodeId e) = Some j \<and> i \<noteq> j}"
proof (induction es arbitrary: cg s)
  case Nil
  then show ?case by simp
next
  case (Cons e es)
  let ?new = "\<lambda>es. {j. \<exists>e \<in> set es. n2c (fromNodeId e) = Some i \<and> n2c (toNodeId e) = Some j \<and> i \<noteq> j}"
  show ?case
  proof (cases "\<exists>a b. n2c (fromNodeId e) = Some a \<and> n2c (toNodeId e) = Some b \<and> a \<noteq> b \<and> map_of cg a \<noteq> None")
    case False
    then have same: "addComponentEdges (e # es) n2c cg = addComponentEdges es n2c cg"
      by (auto split: option.splits)
    have "?new (e # es) = ?new es" using False Cons.prems(1) by auto
    with Cons.IH [OF Cons.prems] same show ?thesis by simp
  next
    case True
    then obtain a b sa where ab: "n2c (fromNodeId e) = Some a" "n2c (toNodeId e) = Some b" "a \<noteq> b"
      and sa: "map_of cg a = Some sa" by auto
    let ?cg = "AList.update a (set_add sa b) cg"
    have step: "addComponentEdges (e # es) n2c cg = addComponentEdges es n2c ?cg"
      using ab sa by simp
    show ?thesis
    proof (cases "a = i")
      case True
      have l: "map_of ?cg i = Some (set_add s b)" using True sa Cons.prems(1) by (simp add: update_conv')
      have d: "distinct (set_add s b)" using Cons.prems(2) by (simp add: set_add_def)
      from Cons.IH [OF l d] obtain s' where
        s': "map_of (addComponentEdges es n2c ?cg) i = Some s'" "distinct s'"
        "set s' = set (set_add s b) \<union> ?new es" by blast
      have "set (set_add s b) \<union> ?new es = set s \<union> ?new (e # es)"
        using ab True by (auto simp: set_add_def)
      with s' step show ?thesis by auto
    next
      case False
      have l: "map_of ?cg i = Some s" using False Cons.prems(1) by (simp add: update_conv')
      from Cons.IH [OF l Cons.prems(2)] obtain s' where
        s': "map_of (addComponentEdges es n2c ?cg) i = Some s'" "distinct s'"
        "set s' = set s \<union> ?new es" by blast
      have "?new (e # es) = ?new es" using ab False by auto
      with s' step show ?thesis by auto
    qed
  qed
qed

lemma map_of_empty_row: "i < n \<Longrightarrow> map_of (map (\<lambda>i. (i, [])) [0..<n]) i = Some ([] :: nat list)"
  by (rule map_of_is_SomeI) (auto simp: comp_def)

lemma buildComponentGraph_dag:
  assumes dist: "distinct vs"
  shows "wfcg (length vs) (buildComponentGraph (map (\<lambda>v. [v]) vs) g) \<and>
         compRel (buildComponentGraph (map (\<lambda>v. [v]) vs) g) =
           {(i, j). i < length vs \<and> j < length vs \<and> i \<noteq> j \<and>
              (\<exists>e \<in> set (edges g). fromNodeId e = vs ! i \<and> toNodeId e = vs ! j)}"
proof -
  define n where "n = length vs"
  define r where "r = mapNodesToComponents (map (\<lambda>v. [v]) vs) 0 [] Map.empty"
  define base :: "(nat \<times> nat list) list" where "base = map (\<lambda>i. (i, [])) [0..<n]"
  define n2c where "n2c = snd r"
  define cg where "cg = addComponentEdges (edges g) n2c base"
  define E where "E = (\<lambda>i j. \<exists>e \<in> set (edges g). fromNodeId e = vs ! i \<and> toNodeId e = vs ! j)"
  have f: "fst r = base"
    unfolding r_def base_def n_def using mapNodes_graph [of 0 "[]" vs Map.empty] by simp
  have bcg: "buildComponentGraph (map (\<lambda>v. [v]) vs) g = cg"
    unfolding buildComponentGraph_def Let_def split_beta cg_def n2c_def f [symmetric] r_def ..
  have n2c_notin: "n2c u = None" if "u \<notin> set vs" for u
    unfolding n2c_def r_def using that mapNodes_lookup_notin [of u vs 0 "[]" Map.empty] by simp
  have n2c_in: "n2c (vs ! k) = Some k" if "k < n" for k
    unfolding n2c_def r_def using mapNodes_lookup [OF dist, of k 0 "[]" Map.empty] that
    by (simp add: n_def)
  have n2c: "n2c u = Some i \<longleftrightarrow> i < n \<and> vs ! i = u" for u i
  proof (cases "u \<in> set vs")
    case False
    then have "n2c u = None" by (rule n2c_notin)
    moreover have "\<not> (i < n \<and> vs ! i = u)" using False unfolding n_def by (metis nth_mem)
    ultimately show ?thesis by simp
  next
    case True
    then obtain k where k: "k < n" "vs ! k = u" unfolding n_def by (auto simp: in_set_conv_nth)
    have a: "n2c u = Some k" using n2c_in [OF k(1)] k(2) by simp
    have b: "i < n \<and> vs ! i = u \<longleftrightarrow> i = k"
      using k dist unfolding n_def by (auto simp: nth_eq_iff_index_eq)
    show ?thesis unfolding a b by auto
  qed
  have keys: "map fst cg = [0..<n]"
    unfolding cg_def base_def by (simp add: addComponentEdges_keys comp_def)
  have row: "\<exists>s. map_of cg i = Some s \<and> distinct s \<and> (\<forall>j. j \<in> set s \<longleftrightarrow> j < n \<and> i \<noteq> j \<and> E i j)"
    if i: "i < n" for i
  proof -
    have "map_of base i = Some []" unfolding base_def using i by (rule map_of_empty_row)
    from addComponentEdges_lookup [OF this, of "edges g" n2c]
    obtain s where s: "map_of cg i = Some s" "distinct s"
      "set s = {j. \<exists>e \<in> set (edges g). n2c (fromNodeId e) = Some i \<and> n2c (toNodeId e) = Some j \<and> i \<noteq> j}"
      unfolding cg_def by auto
    have "j \<in> set s \<longleftrightarrow> j < n \<and> i \<noteq> j \<and> E i j" for j
    proof
      assume "j \<in> set s"
      then obtain e where e: "e \<in> set (edges g)" "n2c (fromNodeId e) = Some i"
        "n2c (toNodeId e) = Some j" "i \<noteq> j" unfolding s(3) by blast
      from e(2) have a: "vs ! i = fromNodeId e" by (simp only: n2c)
      from e(3) have b: "j < n" "vs ! j = toNodeId e" by (simp_all only: n2c)
      have "E i j" unfolding E_def using e(1) a b(2) by (intro bexI [of _ e]) simp_all
      with b(1) e(4) show "j < n \<and> i \<noteq> j \<and> E i j" by simp
    next
      assume "j < n \<and> i \<noteq> j \<and> E i j"
      then obtain e where e: "j < n" "i \<noteq> j" "e \<in> set (edges g)" "fromNodeId e = vs ! i" "toNodeId e = vs ! j"
        unfolding E_def by blast
      have a: "n2c (fromNodeId e) = Some i" using i e(4) by (simp only: n2c)
      have b: "n2c (toNodeId e) = Some j" using e(1,5) by (simp only: n2c)
      have "j \<in> {j. \<exists>e \<in> set (edges g). n2c (fromNodeId e) = Some i \<and> n2c (toNodeId e) = Some j \<and> i \<noteq> j}"
        using a b e(2,3) by blast
      then show "j \<in> set s" by (simp only: s(3))
    qed
    with s(1,2) show ?thesis by blast
  qed
  have dk: "distinct (map fst cg)" by (simp only: keys) simp
  have wf: "wfcg n cg"
    unfolding wfcg_def
  proof (intro conjI ballI)
    show "map fst cg = [0..<n]" by (rule keys)
    fix x assume x: "x \<in> set cg"
    obtain i s where xs: "x = (i, s)" by (cases x)
    from x xs have "i \<in> set (map fst cg)" by force
    then have i: "i < n" by (simp only: keys) simp
    from x xs dk have m: "map_of cg i = Some s" by simp
    from row [OF i] m have "distinct s" "\<forall>j. j \<in> set s \<longrightarrow> j < n" by auto
    then show "case x of (i, s) \<Rightarrow> distinct s \<and> set s \<subseteq> {0..<n}"
      unfolding xs by auto
  qed
  have rel: "compRel cg = {(i, j). i < n \<and> j < n \<and> i \<noteq> j \<and> E i j}"
  proof (intro set_eqI iffI)
    fix p assume "p \<in> compRel cg"
    then obtain i j s where p: "p = (i, j)" and m: "map_of cg i = Some s" and j: "j \<in> set s"
      unfolding compRel_def by blast
    from m have "(i, s) \<in> set cg" by (rule map_of_SomeD)
    then have "i \<in> set (map fst cg)" by force
    then have i: "i < n" by (simp only: keys) simp
    from row [OF i] m j have "j < n \<and> i \<noteq> j \<and> E i j" by auto
    with i show "p \<in> {(i, j). i < n \<and> j < n \<and> i \<noteq> j \<and> E i j}"
      unfolding p by simp
  next
    fix p assume "p \<in> {(i, j). i < n \<and> j < n \<and> i \<noteq> j \<and> E i j}"
    then obtain i j where p: "p = (i, j)" and i: "i < n" and j: "j < n \<and> i \<noteq> j \<and> E i j"
      by blast
    from row [OF i] j obtain s where "map_of cg i = Some s" "j \<in> set s" by blast
    then show "p \<in> compRel cg" unfolding p compRel_def by blast
  qed
  from wf rel show ?thesis unfolding bcg n_def E_def by simp
qed

lemma degreeOf_update:
  "degreeOf (AList.update k v deg) j = (if j = k then v else degreeOf deg j)"
  by (simp add: degreeOf_def update_conv')

lemma countInDegrees_fold:
  "degreeOf (foldl (\<lambda>deg successor. AList.update successor (degreeOf deg successor + 1) deg) deg xs) j
     = degreeOf deg j + int (count_list xs j)"
  by (induction xs arbitrary: deg) (simp_all add: degreeOf_update)

lemma countInDegrees_keys:
  "set xs \<subseteq> fst ` set deg \<Longrightarrow>
   map fst (foldl (\<lambda>deg successor. AList.update successor (degreeOf deg successor + 1) deg) deg xs) = map fst deg"
proof (induction xs arbitrary: deg)
  case Nil
  show ?case by simp
next
  case (Cons x xs)
  have x: "x \<in> fst ` set deg" using Cons.prems by simp
  have k: "map fst (AList.update x (degreeOf deg x + 1) deg) = map fst deg"
    using x by (rule map_fst_update_present)
  have "fst ` set (AList.update x (degreeOf deg x + 1) deg) = fst ` set deg"
    using k by (metis set_map)
  then have s: "set xs \<subseteq> fst ` set (AList.update x (degreeOf deg x + 1) deg)"
    using Cons.prems by simp
  show ?case using Cons.IH [OF s] k by simp
qed

lemma count_list_distinct: "distinct s \<Longrightarrow> count_list s j = (if j \<in> set s then 1 else 0)"
  by (induction s) auto

lemma compRel_dom: "(i, j) \<in> compRel cg \<Longrightarrow> i \<in> fst ` set cg"
  unfolding compRel_def by (auto dest: map_of_SomeD intro: rev_image_eqI)

lemma finite_preds: "finite {i. (i, j) \<in> compRel cg}"
proof (rule finite_subset)
  show "{i. (i, j) \<in> compRel cg} \<subseteq> fst ` set cg" using compRel_dom by blast
  show "finite (fst ` set cg)" by simp
qed

lemma finite_pending: "finite (pending cg result j)"
  unfolding pending_def by (rule finite_subset [OF _ finite_preds [of j cg]]) blast

lemma count_concat_card:
  "distinct (map fst cg) \<Longrightarrow> (\<forall>(i, s) \<in> set cg. distinct s) \<Longrightarrow>
     count_list (concat (map snd cg)) j = card {i. (i, j) \<in> compRel cg}"
proof (induction cg)
  case Nil
  show ?case by (simp add: compRel_def)
next
  case (Cons p rest)
  obtain a s where p: "p = (a, s)" by (cases p)
  have a: "a \<notin> fst ` set rest" and d: "distinct (map fst rest)" and ds: "distinct s"
    and dr: "\<forall>(i, s) \<in> set rest. distinct s"
    using Cons.prems by (auto simp: p)
  have none: "map_of rest a = None" using a by (simp add: map_of_eq_None_iff)
  have notin: "a \<notin> {i. (i, j) \<in> compRel rest}" using a compRel_dom by blast
  have split: "{i. (i, j) \<in> compRel (p # rest)} =
                 (if j \<in> set s then {a} else {}) \<union> {i. (i, j) \<in> compRel rest}"
    unfolding p compRel_def using none by (auto split: if_splits)
  have ih: "count_list (concat (map snd rest)) j = card {i. (i, j) \<in> compRel rest}"
    using Cons.IH [OF d dr] .
  have c: "count_list (concat (map snd (p # rest))) j =
             (if j \<in> set s then 1 else 0) + card {i. (i, j) \<in> compRel rest}"
    using ih by (simp add: p count_list_distinct [OF ds])
  show ?case
  proof (cases "j \<in> set s")
    case True
    have "card (insert a {i. (i, j) \<in> compRel rest}) = Suc (card {i. (i, j) \<in> compRel rest})"
      using finite_preds [of j rest] notin by (rule card_insert_disjoint)
    then show ?thesis unfolding c split using True by simp
  next
    case False
    then show ?thesis unfolding c split by simp
  qed
qed

lemma releaseSuccessors_distinct:
  "distinct s \<Longrightarrow>
     (\<forall>j. degreeOf (fst (releaseSuccessors s deg q)) j = degreeOf deg j - (if j \<in> set s then 1 else 0)) \<and>
     snd (releaseSuccessors s deg q) = q @ filter (\<lambda>j. degreeOf deg j = 1) s"
proof (induction s arbitrary: deg q)
  case Nil
  show ?case by simp
next
  case (Cons a rest)
  define deg1 where "deg1 = AList.update a (degreeOf deg a - 1) deg"
  define q1 where "q1 = (if degreeOf deg a - 1 = 0 then q @ [a] else q)"
  have a: "a \<notin> set rest" and dr: "distinct rest" using Cons.prems by simp_all
  have unfold: "releaseSuccessors (a # rest) deg q = releaseSuccessors rest deg1 q1"
    by (simp add: Let_def deg1_def q1_def)
  have d1: "degreeOf deg1 j = (if j = a then degreeOf deg a - 1 else degreeOf deg j)" for j
    unfolding deg1_def by (rule degreeOf_update)
  note ih = Cons.IH [OF dr, of deg1 q1]
  have same: "filter (\<lambda>j. degreeOf deg1 j = 1) rest = filter (\<lambda>j. degreeOf deg j = 1) rest"
  proof (rule filter_cong [OF refl])
    fix j assume "j \<in> set rest"
    then have "j \<noteq> a" using a by blast
    then show "(degreeOf deg1 j = 1) = (degreeOf deg j = 1)" by (simp add: d1)
  qed
  have q: "snd (releaseSuccessors (a # rest) deg q) = q @ filter (\<lambda>j. degreeOf deg j = 1) (a # rest)"
    unfolding unfold using ih same by (simp add: q1_def)
  have dg: "degreeOf (fst (releaseSuccessors (a # rest) deg q)) j =
              degreeOf deg j - (if j \<in> set (a # rest) then 1 else 0)" for j
    unfolding unfold using ih a by (auto simp: d1)
  from q dg show ?case by blast
qed

lemma kinv_step:
  assumes wf: "wfcg n cg"
    and inv: "kinv n cg (c # queue) deg result"
  defines "succs \<equiv> (case map_of cg c of None \<Rightarrow> [] | Some s \<Rightarrow> s)"
  shows "kinv n cg (snd (releaseSuccessors succs deg queue)) (fst (releaseSuccessors succs deg queue))
           (result @ [c])"
proof -
  define deg1 where "deg1 = fst (releaseSuccessors succs deg queue)"
  define queue1 where "queue1 = snd (releaseSuccessors succs deg queue)"
  define P where "P = pending cg result"
  define P1 where "P1 = pending cg (result @ [c])"
  have i1: "degreeOf deg j = int (card (P j))" for j
    using inv unfolding kinv_def P_def by blast
  have i2: "distinct (result @ c # queue)" "set (result @ c # queue) \<subseteq> {0..<n}"
    using inv unfolding kinv_def by blast+
  have i3: "P j = {}" if "j \<in> set (c # queue)" for j
    using inv that unfolding kinv_def P_def by blast
  have i4: "j \<in> set (result @ c # queue)" if "j < n" "P j = {}" for j
    using inv that unfolding kinv_def P_def by blast
  have i5: "i \<in> set (take q result)" if "q < length result" "(i, result ! q) \<in> compRel cg" for q i
    using inv that unfolding kinv_def by blast
  have cn: "c < n" and cres: "c \<notin> set result" and cq: "c \<notin> set queue"
    and dres: "distinct result" and dq: "distinct queue" and disj: "set result \<inter> set queue = {}"
    using i2 by auto
  have keys: "map fst cg = [0..<n]" using wf unfolding wfcg_def by blast
  have "c \<in> set (map fst cg)" using cn by (simp only: keys) simp
  then obtain s where cs: "(c, s) \<in> set cg" by auto
  have dk: "distinct (map fst cg)" by (simp only: keys) simp
  have m: "map_of cg c = Some s" using cs dk by simp
  have succs: "succs = s" unfolding succs_def m by simp
  have ds: "distinct s" and sub: "set s \<subseteq> {0..<n}" using wf cs unfolding wfcg_def by auto
  have edge: "(c, j) \<in> compRel cg \<longleftrightarrow> j \<in> set s" for j
    unfolding compRel_def using m by simp
  have fin: "finite (P j)" for j unfolding P_def by (rule finite_pending)
  have cP: "c \<in> P j \<longleftrightarrow> j \<in> set s" for j
    unfolding P_def pending_def using cres edge by simp
  have P1: "P1 j = P j - {c}" for j
    unfolding P1_def P_def pending_def by auto
  note rel = releaseSuccessors_distinct [OF ds, of deg queue]
  have d1: "degreeOf deg1 j = degreeOf deg j - (if j \<in> set s then 1 else 0)" for j
    unfolding deg1_def succs using rel by blast
  have q1: "queue1 = queue @ filter (\<lambda>j. degreeOf deg j = 1) s"
    unfolding queue1_def succs using rel by blast
  have n1: "degreeOf deg1 j = int (card (P1 j))" for j
  proof (cases "j \<in> set s")
    case True
    then have c: "c \<in> P j" by (simp only: cP)
    have "card (P j - {c}) = card (P j) - 1" using c by (rule card_Diff_singleton)
    moreover have "0 < card (P j)" using c fin [of j] by (auto simp: card_gt_0_iff)
    ultimately show ?thesis unfolding P1 d1 i1 using True by simp
  next
    case False
    then have "c \<notin> P j" by (simp only: cP) simp
    then have "P j - {c} = P j" by blast
    then show ?thesis unfolding P1 d1 i1 using False by simp
  qed
  have new: "c \<in> P j \<and> card (P j) = 1" if "j \<in> set (filter (\<lambda>j. degreeOf deg j = 1) s)" for j
  proof -
    from that have a: "j \<in> set s" and b: "degreeOf deg j = 1" by simp_all
    from b have "card (P j) = 1" unfolding i1 by simp
    with a show ?thesis by (simp only: cP)
  qed
  have new_res: "j \<notin> set result" if j: "j \<in> set (filter (\<lambda>j. degreeOf deg j = 1) s)" for j
  proof
    assume "j \<in> set result"
    then obtain q where q: "q < length result" "result ! q = j" by (auto simp: in_set_conv_nth)
    have "(c, j) \<in> compRel cg" using j unfolding edge by simp
    then have "c \<in> set (take q result)" using i5 [of q c] q by simp
    then have "c \<in> set result" by (rule in_set_takeD)
    with cres show False by simp
  qed
  have new_q: "j \<notin> set (c # queue)" if j: "j \<in> set (filter (\<lambda>j. degreeOf deg j = 1) s)" for j
  proof
    assume "j \<in> set (c # queue)"
    then have "P j = {}" by (rule i3)
    with new [OF j] show False by blast
  qed
  have n2a: "distinct ((result @ [c]) @ queue1)"
  proof -
    have a: "distinct (filter (\<lambda>j. degreeOf deg j = 1) s)" using ds by simp
    have b: "set (filter (\<lambda>j. degreeOf deg j = 1) s) \<inter> set (result @ c # queue) = {}"
      using new_res new_q by auto
    show ?thesis unfolding q1 using i2(1) a b by auto
  qed
  have n2b: "set ((result @ [c]) @ queue1) \<subseteq> {0..<n}"
    unfolding q1 using i2(2) sub by auto
  have n3: "P1 j = {}" if "j \<in> set queue1" for j
  proof (cases "j \<in> set queue")
    case True
    then have "P j = {}" using i3 [of j] by simp
    then show ?thesis unfolding P1 by simp
  next
    case False
    with that have j: "j \<in> set (filter (\<lambda>j. degreeOf deg j = 1) s)" unfolding q1 by simp
    from new [OF j] have "c \<in> P j" "card (P j) = 1" by simp_all
    then have "P j = {c}" by (metis card_1_singletonE singletonD)
    then show ?thesis unfolding P1 by simp
  qed
  have n4: "j \<in> set ((result @ [c]) @ queue1)" if jn: "j < n" and e: "P1 j = {}" for j
  proof (cases "P j = {}")
    case True
    from i4 [OF jn True] show ?thesis unfolding q1 by auto
  next
    case False
    with e have pj: "P j = {c}" unfolding P1 by blast
    then have "c \<in> P j" by simp
    then have a: "j \<in> set s" by (simp only: cP)
    have "degreeOf deg j = 1" unfolding i1 pj by simp
    with a show ?thesis unfolding q1 by simp
  qed
  have n5: "i \<in> set (take q (result @ [c]))"
    if q: "q < length (result @ [c])" and e: "(i, (result @ [c]) ! q) \<in> compRel cg" for q i
  proof (cases "q < length result")
    case True
    then have "(result @ [c]) ! q = result ! q" by (simp add: nth_append)
    with e have "i \<in> set (take q result)" using i5 [OF True, of i] by simp
    then show ?thesis using True by simp
  next
    case False
    with q have ql: "q = length result" by simp
    then have ec: "(i, c) \<in> compRel cg" using e by simp
    have "P c = {}" using i3 [of c] by simp
    then have "i \<in> set result" using ec unfolding P_def pending_def by blast
    then show ?thesis unfolding ql by simp
  qed
  show ?thesis
    unfolding kinv_def deg1_def [symmetric] queue1_def [symmetric]
    using n1 n2a n2b n3 n4 n5 unfolding P1_def by blast
qed

lemma kahnLoop_inv:
  "wfcg n cg \<Longrightarrow> kinv n cg queue deg result \<Longrightarrow>
     \<exists>deg'. kinv n cg [] deg' (kahnLoop cg queue deg result)"
proof (induction cg queue deg result rule: kahnLoop.induct)
  case (1 componentGraph inDegree result)
  then show ?case by auto
next
  case (2 componentGraph component queue inDegree result)
  define succs where "succs = (case map_of componentGraph component of None \<Rightarrow> [] | Some s \<Rightarrow> s)"
  have step: "kinv n componentGraph (snd (releaseSuccessors succs inDegree queue))
                (fst (releaseSuccessors succs inDegree queue)) (result @ [component])"
    unfolding succs_def using "2.prems" by (rule kinv_step)
  from "2.IH" [OF succs_def "2.prems"(1) step]
  show ?case by (simp add: Let_def succs_def)
qed

lemma kinv_complete:
  assumes wf: "wfcg n cg" and ac: "acyclic (compRel cg)" and inv: "kinv n cg [] deg r"
  shows "set r = {0..<n}"
proof -
  have sub: "set r \<subseteq> {0..<n}" using inv unfolding kinv_def by simp
  have complete: "j \<in> set r" if "j < n" "pending cg r j = {}" for j
    using inv that unfolding kinv_def by simp
  have keys: "map fst cg = [0..<n]" using wf unfolding wfcg_def by blast
  have "compRel cg \<subseteq> fst ` set cg \<times> (\<Union>(i, s) \<in> set cg. set s)"
    unfolding compRel_def by (auto dest!: map_of_SomeD intro: rev_image_eqI)
  then have "finite (compRel cg)" by (rule finite_subset) auto
  then have wfR: "wf (compRel cg)" using ac by (rule finite_acyclic_wf)
  have "{0..<n} \<subseteq> set r"
  proof (rule ccontr)
    assume "\<not> {0..<n} \<subseteq> set r"
    then obtain x where x: "x \<in> {0..<n} - set r" by blast
    from wfR x obtain z where z: "z \<in> {0..<n} - set r"
      and min: "\<And>y. (y, z) \<in> compRel cg \<Longrightarrow> y \<notin> {0..<n} - set r"
      by (rule wfE_min) blast
    have "pending cg r z = {}"
    proof (rule ccontr)
      assume "pending cg r z \<noteq> {}"
      then obtain y where y: "y \<notin> set r" "(y, z) \<in> compRel cg" unfolding pending_def by blast
      from compRel_dom [OF y(2)] have "y \<in> set (map fst cg)" by simp
      then have "y < n" by (simp only: keys) simp
      with y(1) min [OF y(2)] show False by simp
    qed
    with z complete [of z] show False by simp
  qed
  with sub show ?thesis by blast
qed

lemma initial_degree: "degreeOf (map (\<lambda>(componentId, successors). (componentId, 0)) cg) j = 0"
  by (induction cg) (auto simp: degreeOf_def)

lemma zero_queue:
  assumes "distinct (map fst deg)"
  shows "set (map fst (filter (\<lambda>(componentId, degree). degree = 0) deg))
           = {c \<in> fst ` set deg. degreeOf deg c = 0}"
proof -
  have v: "degreeOf deg c = d" if "(c, d) \<in> set deg" for c d
    using assms that by (simp add: degreeOf_def)
  show ?thesis
  proof (intro set_eqI iffI)
    fix c assume "c \<in> set (map fst (filter (\<lambda>(componentId, degree). degree = 0) deg))"
    then obtain d where "(c, d) \<in> set deg" "d = 0" by auto
    then show "c \<in> {c \<in> fst ` set deg. degreeOf deg c = 0}" using v by force
  next
    fix c assume "c \<in> {c \<in> fst ` set deg. degreeOf deg c = 0}"
    then obtain d where d: "(c, d) \<in> set deg" and z: "degreeOf deg c = 0" by auto
    from v [OF d] z have "d = 0" by simp
    with d show "c \<in> set (map fst (filter (\<lambda>(componentId, degree). degree = 0) deg))"
      by force
  qed
qed

lemma topologicalSortComponents_sorted:
  assumes wf: "wfcg n cg" and ac: "acyclic (compRel cg)"
  shows "distinct (topologicalSortComponents cg) \<and> set (topologicalSortComponents cg) = {0..<n} \<and>
         (\<forall>q < length (topologicalSortComponents cg). \<forall>i.
            (i, topologicalSortComponents cg ! q) \<in> compRel cg \<longrightarrow>
            i \<in> set (take q (topologicalSortComponents cg)))"
proof -
  define deg0 :: "(nat \<times> int) list" where "deg0 = map (\<lambda>(componentId, successors). (componentId, 0)) cg"
  define deg where "deg = countInDegrees cg deg0"
  define queue where "queue = map fst (filter (\<lambda>(componentId, degree). degree = 0) deg)"
  define r where "r = kahnLoop cg queue deg []"
  have r: "topologicalSortComponents cg = r"
    unfolding topologicalSortComponents_def Let_def r_def queue_def deg_def deg0_def ..
  have keys: "map fst cg = [0..<n]" and rows: "\<forall>(i, s) \<in> set cg. distinct s \<and> set s \<subseteq> {0..<n}"
    using wf unfolding wfcg_def by blast+
  have k0: "map fst deg0 = [0..<n]" unfolding deg0_def using keys by (simp add: comp_def split_beta)
  have "set (concat (map snd cg)) \<subseteq> {0..<n}"
  proof
    fix x assume "x \<in> set (concat (map snd cg))"
    then obtain a b where ab: "(a, b) \<in> set cg" "x \<in> set b" by auto
    from rows ab(1) have "set b \<subseteq> {0..<n}" by blast
    with ab(2) show "x \<in> {0..<n}" by blast
  qed
  also have "{0..<n} = fst ` set deg0" using k0 by (metis set_map set_upt)
  finally have "map fst deg = map fst deg0"
    unfolding deg_def countInDegrees_def by (rule countInDegrees_keys)
  with k0 have k: "map fst deg = [0..<n]" by simp
  have dk: "distinct (map fst deg)" by (simp only: k) simp
  have dc: "distinct (map fst cg)" by (simp only: keys) simp
  have rows': "\<forall>(i, s) \<in> set cg. distinct s" using rows by auto
  have d: "degreeOf deg j = int (card (pending cg [] j))" for j
    unfolding deg_def countInDegrees_def countInDegrees_fold deg0_def initial_degree
      count_concat_card [OF dc rows'] pending_def by simp
  have fk: "fst ` set deg = {0..<n}" using k by (metis set_map set_upt)
  have qs: "set queue = {c. c < n \<and> degreeOf deg c = 0}"
    unfolding queue_def zero_queue [OF dk] fk by auto
  have dq: "distinct queue" unfolding queue_def using dk by (rule distinct_map_filter)
  have e: "pending cg [] j = {} \<longleftrightarrow> degreeOf deg j = 0" for j
    unfolding d using finite_pending [of cg "[]" j] by simp
  have "kinv n cg queue deg []"
    unfolding kinv_def using d dq qs e by auto
  from kahnLoop_inv [OF wf this] obtain deg' where inv: "kinv n cg [] deg' r"
    unfolding r_def by blast
  have "set r = {0..<n}" using wf ac inv by (rule kinv_complete)
  moreover have "distinct r" using inv unfolding kinv_def by simp
  moreover have "\<forall>q < length r. \<forall>i. (i, r ! q) \<in> compRel cg \<longrightarrow> i \<in> set (take q r)"
    using inv unfolding kinv_def by blast
  ultimately show ?thesis unfolding r by blast
qed

lemma indexOf_nth: "distinct xs \<Longrightarrow> k < length xs \<Longrightarrow> indexOf xs (xs ! k) = int k"
proof (induction xs arbitrary: k)
  case Nil
  then show ?case by simp
next
  case (Cons y ys)
  show ?case
  proof (cases k)
    case 0
    then show ?thesis by simp
  next
    case (Suc m)
    from Cons.prems Suc have m: "m < length ys" and d: "distinct ys" and y: "y \<notin> set ys" by auto
    from m have "ys ! m \<in> set ys" by simp
    with y have ne: "y \<noteq> ys ! m" by blast
    from Cons.IH [OF d m] have "indexOf ys (ys ! m) = int m" .
    then show ?thesis using Suc ne by simp
  qed
qed

lemma concat_singletons: "concat (map (\<lambda>i. [f i]) r) = map f r"
  by (induction r) auto

lemma finite_edgeRel: "finite (edgeRel g)"
proof (rule finite_subset)
  show "edgeRel g \<subseteq> (\<lambda>e. (fromNodeId e, toNodeId e)) ` set (edges g)"
    unfolding edgeRel_def by blast
  show "finite ((\<lambda>e. (fromNodeId e, toNodeId e)) ` set (edges g))" by simp
qed

lemma modifiedTopologicalSort_dag:
  assumes ne: "[] \<notin> fst ` set (nodes g)" and ac: "acyclic (edgeRel g)"
  shows "\<exists>ord. modifiedTopologicalSort g = Some ord \<and> distinct ord \<and> set ord = fst ` set (nodes g) \<and>
           (\<forall>e \<in> set (edges g). fromNodeId e \<in> fst ` set (nodes g) \<longrightarrow> toNodeId e \<in> fst ` set (nodes g) \<longrightarrow>
              indexOf ord (fromNodeId e) < indexOf ord (toNodeId e))"
proof -
  from findSCCs_dag [OF ne ac] obtain vs where f: "findSCCs g = Some (map (\<lambda>v. [v]) vs)"
    and dv: "distinct vs" and sv: "set vs = fst ` set (nodes g)" by blast
  define n where "n = length vs"
  define cg where "cg = buildComponentGraph (map (\<lambda>v. [v]) vs) g"
  define r where "r = topologicalSortComponents cg"
  define ord where "ord = map (\<lambda>i. vs ! i) r"
  from buildComponentGraph_dag [OF dv, of g]
  have wf: "wfcg n cg"
    and rel: "compRel cg = {(i, j). i < n \<and> j < n \<and> i \<noteq> j \<and>
                (\<exists>e \<in> set (edges g). fromNodeId e = vs ! i \<and> toNodeId e = vs ! j)}"
    unfolding n_def cg_def by blast+
  have sub: "compRel cg \<subseteq> inv_image (edgeRel g) (\<lambda>i. vs ! i)"
  proof
    fix p assume "p \<in> compRel cg"
    then obtain i j e where p: "p = (i, j)" and i: "i < n" and j: "j < n"
      and e: "e \<in> set (edges g)" "fromNodeId e = vs ! i" "toNodeId e = vs ! j"
      unfolding rel by blast
    have "vs ! i \<in> set vs" "vs ! j \<in> set vs" using i j unfolding n_def by simp_all
    then have "fromNodeId e \<in> fst ` set (nodes g)" "toNodeId e \<in> fst ` set (nodes g)"
      unfolding e(2,3) sv by simp_all
    with e(1) have "(fromNodeId e, toNodeId e) \<in> edgeRel g" unfolding edgeRel_def by blast
    then show "p \<in> inv_image (edgeRel g) (\<lambda>i. vs ! i)"
      unfolding p inv_image_def e(2,3) by simp
  qed
  have "wf (edgeRel g)" using finite_edgeRel ac by (rule finite_acyclic_wf)
  then have "wf (inv_image (edgeRel g) (\<lambda>i. vs ! i))" by (rule wf_inv_image)
  then have "wf (compRel cg)" using sub by (rule wf_subset)
  then have acc: "acyclic (compRel cg)" by (rule wf_acyclic)
  from topologicalSortComponents_sorted [OF wf acc]
  have dr: "distinct r" and sr: "set r = {0..<n}"
    and sorted: "\<And>q i. q < length r \<Longrightarrow> (i, r ! q) \<in> compRel cg \<Longrightarrow> i \<in> set (take q r)"
    unfolding r_def by blast+
  have flat: "concat (map (\<lambda>componentId. if componentId < length (map (\<lambda>v. [v]) vs)
                 then map (\<lambda>v. [v]) vs ! componentId else []) r) = ord"
  proof -
    have "map (\<lambda>componentId. if componentId < length (map (\<lambda>v. [v]) vs)
                 then map (\<lambda>v. [v]) vs ! componentId else []) r = map (\<lambda>i. [vs ! i]) r"
    proof (rule map_cong [OF refl])
      fix i assume "i \<in> set r"
      then have "i < length vs" unfolding sr n_def by simp
      then show "(if i < length (map (\<lambda>v. [v]) vs) then map (\<lambda>v. [v]) vs ! i else []) = [vs ! i]"
        by simp
    qed
    then show ?thesis unfolding ord_def by (simp only: concat_singletons)
  qed
  have mts: "modifiedTopologicalSort g = Some ord"
    unfolding modifiedTopologicalSort_def f Let_def option.case cg_def [symmetric] r_def [symmetric] flat ..
  have inj: "inj_on (\<lambda>i. vs ! i) (set r)"
    unfolding sr n_def using dv by (intro inj_on_nth) simp_all
  have dord: "distinct ord" unfolding ord_def using dr inj by (simp add: distinct_map)
  have sord: "set ord = fst ` set (nodes g)"
  proof -
    have "set ord = (\<lambda>i. vs ! i) ` {0..<length vs}" unfolding ord_def using sr n_def by simp
    also have "\<dots> = set (take (length vs) vs)" by (rule nth_image) simp
    finally show ?thesis using sv by simp
  qed
  have lord: "length ord = length r" unfolding ord_def by simp
  have edge: "indexOf ord (fromNodeId e) < indexOf ord (toNodeId e)"
    if e: "e \<in> set (edges g)" and u: "fromNodeId e \<in> fst ` set (nodes g)"
      and w: "toNodeId e \<in> fst ` set (nodes g)" for e
  proof -
    from u obtain i where i: "i < n" "vs ! i = fromNodeId e"
      unfolding sv [symmetric] n_def by (auto simp: in_set_conv_nth)
    from w obtain j where j: "j < n" "vs ! j = toNodeId e"
      unfolding sv [symmetric] n_def by (auto simp: in_set_conv_nth)
    have er: "(fromNodeId e, toNodeId e) \<in> edgeRel g"
      unfolding edgeRel_def using e u w by blast
    have "i \<noteq> j"
    proof
      assume "i = j"
      with i j have "fromNodeId e = toNodeId e" by simp
      with er have "(toNodeId e, toNodeId e) \<in> (edgeRel g)\<^sup>+" by auto
      with ac show False unfolding acyclic_def by blast
    qed
    with i j e have ij: "(i, j) \<in> compRel cg" unfolding rel by auto
    from j(1) have "j \<in> set r" unfolding sr by simp
    then obtain q where q: "q < length r" "r ! q = j" by (auto simp: in_set_conv_nth)
    from sorted [OF q(1)] ij q(2) have "i \<in> set (take q r)" by simp
    then obtain p where p: "p < length (take q r)" "take q r ! p = i"
      by (auto simp: in_set_conv_nth)
    from p q(1) have pq: "p < q" and rp: "r ! p = i" by simp_all
    from pq q(1) have pl: "p < length r" by simp
    have "ord ! p = fromNodeId e" unfolding ord_def using pl rp i(2) by simp
    moreover have "ord ! q = toNodeId e" unfolding ord_def using q j(2) by simp
    moreover have "indexOf ord (ord ! p) = int p" using dord pl lord by (intro indexOf_nth) simp_all
    moreover have "indexOf ord (ord ! q) = int q" using dord q(1) lord by (intro indexOf_nth) simp_all
    ultimately show ?thesis using pq by simp
  qed
  from mts dord sord edge show ?thesis by blast
qed

lemma fanInGraph_acyclic: "acyclic (edgeRel fanInGraph)"
proof (rule acyclicI_order [where f = "\<lambda>v. if v = ''B'' then (0::nat) else 1"])
  fix a b assume "(a, b) \<in> edgeRel fanInGraph"
  then have "b = ''B'' \<and> a \<noteq> ''B''"
    unfolding edgeRel_def fanInGraph_def mkEdge_def by auto
  then show "(if b = ''B'' then (0::nat) else 1) < (if a = ''B'' then 0 else 1)" by simp
qed

lemma fanInGraph_sorted:
  "[] \<notin> fst ` set (nodes fanInGraph) \<and> acyclic (edgeRel fanInGraph) \<and>
   modifiedTopologicalSort fanInGraph = Some [''A1'', ''A2'', ''B''] \<and>
   indexOf [''A1'', ''A2'', ''B''] ''A1'' < indexOf [''A1'', ''A2'', ''B''] ''B''"
proof -
  have ne: "[] \<notin> fst ` set (nodes fanInGraph)" by (simp add: fanInGraph_def)
  have ord: "modifiedTopologicalSort fanInGraph = Some [''A1'', ''A2'', ''B'']" by code_simp
  have e: "mkEdge ''e1'' ''A1'' ''delta'' ''B'' ''delta'' \<in> set (edges fanInGraph)"
    by (simp add: fanInGraph_def)
  have u: "fromNodeId (mkEdge ''e1'' ''A1'' ''delta'' ''B'' ''delta'') \<in> fst ` set (nodes fanInGraph)"
    by (simp add: fanInGraph_def mkEdge_def)
  have w: "toNodeId (mkEdge ''e1'' ''A1'' ''delta'' ''B'' ''delta'') \<in> fst ` set (nodes fanInGraph)"
    by (simp add: fanInGraph_def mkEdge_def)
  from modifiedTopologicalSort_dag [OF ne fanInGraph_acyclic] e u w ord
  have "indexOf [''A1'', ''A2'', ''B'']  (fromNodeId (mkEdge ''e1'' ''A1'' ''delta'' ''B'' ''delta''))
          < indexOf [''A1'', ''A2'', ''B''] (toNodeId (mkEdge ''e1'' ''A1'' ''delta'' ''B'' ''delta''))"
    by auto
  then have "indexOf [''A1'', ''A2'', ''B''] ''A1'' < indexOf [''A1'', ''A2'', ''B''] ''B''"
    by (simp only: mkEdge_def Edge.simps)
  with ne fanInGraph_acyclic ord show ?thesis by blast
qed

section \<open>Topology: a node whose id is the empty string\<close>

text \<open>
  C3, at a failing input. \<open>emptyIdGraph\<close> has the nodes \<open>r\<close>, the empty string and
  \<open>b\<close>, and the edges from \<open>r\<close> to the empty string, from \<open>r\<close> to \<open>b\<close> and from \<open>b\<close> to
  the empty string: it has no cycle. The pop loop's test \<open>if (w)\<close> is false of the
  empty string, so that node joins no component and stays marked as on the stack;
  \<open>b\<close> then takes its index for a low-link and is popped into the component of \<open>r\<close>.
  The order returned is \<open>b, r\<close>: the edge from \<open>r\<close> to \<open>b\<close> has its source after its
  destination, and the node with the empty id has no position.
\<close>

theorem empty_id_misordered:
  "modifiedTopologicalSort emptyIdGraph = Some [''b'', ''r''] \<and>
   mkEdge ''e2'' ''r'' ''delta'' ''b'' ''delta'' \<in> set (edges emptyIdGraph) \<and>
   indexOf [''b'', ''r''] ''r'' = 1 \<and> indexOf [''b'', ''r''] ''b'' = 0 \<and>
   indexOf [''b'', ''r''] '''' = -1"
  by code_simp

text \<open>
  C4, at a failing input. \<open>emptyIdPairGraph\<close> has the nodes \<open>A\<close> and the empty string
  and no edge. The order returned holds \<open>A\<close> only: the node with the empty id is
  missing from it.
\<close>

theorem empty_id_dropped:
  "modifiedTopologicalSort emptyIdPairGraph = Some [''A''] \<and>
   map fst (nodes emptyIdPairGraph) = [''A'', '''']"
  by code_simp

section \<open>Strategies: the back-edge values\<close>

lemma setNumericFields_eq:
  "setNumericFields n kvs m = m ++ map_of (rev (numericFields n kvs))"
proof (induction kvs arbitrary: m)
  case Nil
  then show ?case by simp
next
  case (Cons kv kvs)
  obtain f v where kv: "kv = (f, v)" by (cases kv)
  show ?case
    by (cases v) (auto simp: kv Cons.IH fun_eq_iff map_add_def split: option.splits)
qed

lemma scanResults_eq:
  "scanResults prev m = m ++ map_of (rev (emitted prev))"
proof (induction prev arbitrary: m)
  case Nil
  then show ?case by simp
next
  case (Cons p prev)
  obtain n outs where p: "p = (n, outs)" by (cases p)
  show ?case
    by (simp add: p Cons.IH setNumericFields_eq)
qed

lemma set_numericFields:
  "set (numericFields n kvs) = {(backEdgeKey n f, x) | f x. (f, VNum x) \<in> set kvs}"
proof (induction kvs)
  case Nil
  then show ?case by simp
next
  case (Cons kv kvs)
  obtain f v where kv: "kv = (f, v)" by (cases kv)
  show ?case
    by (cases v) (auto simp: kv Cons.IH)
qed

lemma object_iff: "(truthy v \<and> typeof_object v) = (\<exists>kvs. v = VObj kvs)"
  by (cases v) auto

lemma set_emitted:
  "set (emitted prev) =
     {(backEdgeKey n f, x) | n kvs f x. (n, VObj kvs) \<in> set prev \<and> (f, VNum x) \<in> set kvs}"
proof (induction prev)
  case Nil
  then show ?case by simp
next
  case (Cons p prev)
  obtain n outs where p: "p = (n, outs)" by (cases p)
  show ?case
  proof (cases "\<exists>kvs. outs = VObj kvs")
    case True
    then obtain kvs where o: "outs = VObj kvs" by blast
    show ?thesis
      by (auto simp: p o Cons.IH set_numericFields)
  next
    case False
    then have "\<not> (truthy outs \<and> typeof_object outs)" by (simp add: object_iff)
    with False show ?thesis
      by (auto simp: p Cons.IH)
  qed
qed

text \<open>
  C8 (as amended). For both strategies \<open>getBackEdgeValues\<close> is the same function.
  It returns the empty mapping on iteration 1 and when the previous results are
  absent. On any other iteration, with previous results \<open>prev\<close>, the keys of the
  returned mapping are exactly the strings \<open>nodeId.fieldName\<close> for the nodes of
  \<open>prev\<close> whose output is an object and the fields of it holding a number; and when
  no two such fields yield the same key string, a key is bound to a value exactly
  when that value is the number in such a field.
\<close>

theorem getBackEdgeValues_scan:
  "MultiPass_getBackEdgeValues 1 previousResults = Map.empty \<and>
   MultiPass_getBackEdgeValues iteration None = Map.empty \<and>
   Convergence_getBackEdgeValues iteration previousResults = MultiPass_getBackEdgeValues iteration previousResults \<and>
   (iteration \<noteq> 1 \<longrightarrow>
      dom (MultiPass_getBackEdgeValues iteration (Some prev)) =
        {backEdgeKey n f | n kvs f x. (n, VObj kvs) \<in> set prev \<and> (f, VNum x) \<in> set kvs} \<and>
      (collisionFree prev \<longrightarrow>
         (\<forall>k x. MultiPass_getBackEdgeValues iteration (Some prev) k = Some x \<longleftrightarrow>
            (\<exists>n kvs f. (n, VObj kvs) \<in> set prev \<and> (f, VNum x) \<in> set kvs \<and> k = backEdgeKey n f))))"
proof -
  have a: "MultiPass_getBackEdgeValues 1 previousResults = Map.empty"
    by (simp add: MultiPass_getBackEdgeValues_def split: option.splits)
  have b: "MultiPass_getBackEdgeValues iteration None = Map.empty"
    by (simp add: MultiPass_getBackEdgeValues_def)
  have c: "Convergence_getBackEdgeValues iteration previousResults = MultiPass_getBackEdgeValues iteration previousResults"
    by (simp add: MultiPass_getBackEdgeValues_def Convergence_getBackEdgeValues_def)
  have d: "dom (MultiPass_getBackEdgeValues iteration (Some prev)) =
        {backEdgeKey n f | n kvs f x. (n, VObj kvs) \<in> set prev \<and> (f, VNum x) \<in> set kvs}"
    if "iteration \<noteq> 1"
  proof -
    have "dom (MultiPass_getBackEdgeValues iteration (Some prev)) = fst ` set (emitted prev)"
      using that by (simp add: MultiPass_getBackEdgeValues_def scanResults_eq dom_map_of_conv_image_fst)
    also have "\<dots> = {backEdgeKey n f | n kvs f x. (n, VObj kvs) \<in> set prev \<and> (f, VNum x) \<in> set kvs}"
      by (force simp: set_emitted)
    finally show ?thesis .
  qed
  have e: "MultiPass_getBackEdgeValues iteration (Some prev) k = Some x \<longleftrightarrow>
            (\<exists>n kvs f. (n, VObj kvs) \<in> set prev \<and> (f, VNum x) \<in> set kvs \<and> k = backEdgeKey n f)"
    if "iteration \<noteq> 1" and cf: "collisionFree prev" for k x
  proof -
    have dist: "distinct (map fst (rev (emitted prev)))"
      using cf by (simp add: collisionFree_def rev_map [symmetric])
    have "MultiPass_getBackEdgeValues iteration (Some prev) k = Some x \<longleftrightarrow> (k, x) \<in> set (emitted prev)"
      using that(1) map_of_eq_Some_iff [OF dist, of k x]
      by (simp add: MultiPass_getBackEdgeValues_def scanResults_eq)
    also have "\<dots> \<longleftrightarrow> (\<exists>n kvs f. (n, VObj kvs) \<in> set prev \<and> (f, VNum x) \<in> set kvs \<and> k = backEdgeKey n f)"
      by (auto simp: set_emitted)
    finally show ?thesis .
  qed
  show ?thesis using a b c d e by blast
qed

text \<open>
  The theorem at iteration 2 and the previous results \<open>A \<mapsto> {delta: 5, label: "x"}, B \<mapsto> null\<close>.
\<close>

theorem getBackEdgeValues_scan_witness:
  "(2::int) \<noteq> 1 \<and> collisionFree [(''A'', VObj [(''delta'', VNum (Finite 5)), (''label'', VStr ''x'')]), (''B'', VNull)] \<and>
   dom (MultiPass_getBackEdgeValues 2 (Some [(''A'', VObj [(''delta'', VNum (Finite 5)), (''label'', VStr ''x'')]), (''B'', VNull)])) = {''A.delta''} \<and>
   MultiPass_getBackEdgeValues 2 (Some [(''A'', VObj [(''delta'', VNum (Finite 5)), (''label'', VStr ''x'')]), (''B'', VNull)]) ''A.delta'' = Some (Finite 5) \<and>
   Convergence_getBackEdgeValues 2 (Some [(''A'', VObj [(''delta'', VNum (Finite 5)), (''label'', VStr ''x'')]), (''B'', VNull)]) ''A.delta'' = Some (Finite 5)"
proof -
  let ?prev = "[(''A'', VObj [(''delta'', VNum (Finite 5)), (''label'', VStr ''x'')]), (''B'', VNull)]"
  have cf: "collisionFree ?prev" by (simp add: collisionFree_def backEdgeKey_def)
  note t = getBackEdgeValues_scan [of "Some ?prev" 2 ?prev]
  have d: "dom (MultiPass_getBackEdgeValues 2 (Some ?prev)) = {''A.delta''}"
    using t by (auto simp: backEdgeKey_def)
  have v: "MultiPass_getBackEdgeValues 2 (Some ?prev) ''A.delta'' = Some (Finite 5)"
    using t cf by (auto simp: backEdgeKey_def)
  have c: "Convergence_getBackEdgeValues 2 (Some ?prev) ''A.delta'' = Some (Finite 5)"
    using t v by simp
  show ?thesis using cf d v c by simp
qed

text \<open>
  C8 as stated fails where two fields yield one key: node \<open>a\<close> has the numeric
  field \<open>b.c\<close> with value 1, node \<open>a.b\<close> the field \<open>c\<close> with value 2; both keys are
  \<open>a.b.c\<close>, and the mapping binds it to 2.
\<close>

theorem getBackEdgeValues_collision_counterexample:
  "map_of [(''a'', VObj [(''b.c'', VNum (Finite 1))]), (''a.b'', VObj [(''c'', VNum (Finite 2))])] ''a'' = Some (VObj [(''b.c'', VNum (Finite 1))]) \<and>
   MultiPass_getBackEdgeValues 2 (Some [(''a'', VObj [(''b.c'', VNum (Finite 1))]), (''a.b'', VObj [(''c'', VNum (Finite 2))])])
     (backEdgeKey ''a'' ''b.c'') = Some (Finite 2) \<and>
   MultiPass_getBackEdgeValues 2 (Some [(''a'', VObj [(''b.c'', VNum (Finite 1))]), (''a.b'', VObj [(''c'', VNum (Finite 2))])])
     (backEdgeKey ''a'' ''b.c'') \<noteq> Some (Finite 1)"
  by (simp add: MultiPass_getBackEdgeValues_def backEdgeKey_def)

section \<open>Engine: gathering the inputs of a node\<close>

lemma indexOf_ge: "indexOf xs x \<ge> -1"
  by (induction xs) auto

lemma indexOf_notin: "indexOf xs x = -1 \<longleftrightarrow> x \<notin> set xs"
proof (induction xs)
  case Nil
  then show ?case by simp
next
  case (Cons y ys)
  have "indexOf ys x \<ge> -1" by (rule indexOf_ge)
  with Cons show ?case by auto
qed

text \<open>
  Sums of small integers, which doubles add exactly.
\<close>

lemma round_small:
  "roundToDouble 1 = Finite 1" "roundToDouble 2 = Finite 2" "roundToDouble 3 = Finite 3"
  "roundToDouble 4 = Finite 4" "roundToDouble 5 = Finite 5" "roundToDouble 6 = Finite 6"
  "roundToDouble 7 = Finite 7"
  by code_simp+

lemma inheritedNames_iff:
  "nm \<notin> inheritedNames \<longleftrightarrow> nm \<noteq> ''__proto__'' \<and> map_of objectPrototype nm = None"
  by (simp add: inheritedNames_def map_of_eq_None_iff)

text \<open>
  Under a name the record does not inherit, \<open>addToInput\<close> adds to the number that is
  there, or to 0; under another name it changes nothing.
\<close>

lemma addToInput_same:
  "nm \<notin> inheritedNames \<Longrightarrow> \<forall>s ds. acc nm \<noteq> Some (Text s ds) \<Longrightarrow>
     addToInput acc nm v nm = Some (Number (dadd (case acc nm of Some (Number x) \<Rightarrow> x | _ \<Rightarrow> Finite 0) v))"
  by (auto simp: addToInput_def inheritedNames_iff split: option.splits inputValue.splits)

lemma addToInput_other:
  "nm' \<noteq> nm \<Longrightarrow> addToInput acc nm' v nm = acc nm"
  by (auto simp: addToInput_def split: option.splits inputValue.splits)

text \<open>
  What the loop over the incoming edges leaves under a name the record does not
  inherit: nothing new when no edge is filed under it, else the earlier number (0
  when absent) plus the values of the edges filed under it, added one after the
  other in the order of the edges, each of which resolved without error.
\<close>

lemma gatherLoop_result:
  "gatherLoop node g cur bev ord idx es acc = Inr r \<Longrightarrow> nm \<notin> inheritedNames \<Longrightarrow>
   \<forall>s ds. acc nm \<noteq> Some (Text s ds) \<Longrightarrow>
     \<exists>vs. list_all2 (\<lambda>e v. edgeValue g cur bev ord idx e = Inr v)
                 (filter (\<lambda>e. targetName node e = Some nm) es) vs \<and>
          r nm = (if filter (\<lambda>e. targetName node e = Some nm) es = [] then acc nm
                  else Some (Number (foldl dadd (case acc nm of Some (Number x) \<Rightarrow> x | _ \<Rightarrow> Finite 0) vs)))"
proof (induction es arbitrary: acc)
  case Nil
  then show ?case by simp
next
  case (Cons e es)
  show ?case
  proof (cases "findPort (inputs node) (toPortId e)")
    case None
    with Cons.prems have "gatherLoop node g cur bev ord idx es acc = Inr r" by simp
    from Cons.IH [OF this Cons.prems(2,3)] None show ?thesis by (simp add: targetName_def)
  next
    case (Some p)
    with Cons.prems obtain v where v: "edgeValue g cur bev ord idx e = Inr v"
      and rest: "gatherLoop node g cur bev ord idx es (addToInput acc (port_name p) v) = Inr r"
      by (auto split: sum.splits)
    show ?thesis
    proof (cases "port_name p = nm")
      case True
      let ?a0 = "case acc nm of Some (Number x) \<Rightarrow> x | _ \<Rightarrow> Finite 0"
      have acc': "addToInput acc (port_name p) v nm = Some (Number (dadd ?a0 v))"
        unfolding True using Cons.prems(2,3) by (rule addToInput_same)
      then have nt: "\<forall>s ds. addToInput acc (port_name p) v nm \<noteq> Some (Text s ds)" by simp
      from Cons.IH [OF rest Cons.prems(2) nt] obtain vs where
        vs: "list_all2 (\<lambda>e v. edgeValue g cur bev ord idx e = Inr v)
                 (filter (\<lambda>e. targetName node e = Some nm) es) vs"
        and r: "r nm = (if filter (\<lambda>e. targetName node e = Some nm) es = []
                        then addToInput acc (port_name p) v nm
                        else Some (Number (foldl dadd
                               (case addToInput acc (port_name p) v nm of Some (Number x) \<Rightarrow> x | _ \<Rightarrow> Finite 0) vs)))"
        by blast
      have "list_all2 (\<lambda>e v. edgeValue g cur bev ord idx e = Inr v)
              (filter (\<lambda>e. targetName node e = Some nm) (e # es)) (v # vs)"
        using vs v True Some by (simp add: targetName_def)
      moreover have "r nm = Some (Number (foldl dadd ?a0 (v # vs)))"
        using r vs unfolding acc' by (auto split: if_splits)
      ultimately show ?thesis using True Some
        by (intro exI [of _ "v # vs"]) (simp add: targetName_def)
    next
      case False
      have same: "addToInput acc (port_name p) v nm = acc nm"
        using False by (rule addToInput_other)
      then have nt: "\<forall>s ds. addToInput acc (port_name p) v nm \<noteq> Some (Text s ds)"
        using Cons.prems(3) by simp
      from Cons.IH [OF rest Cons.prems(2) nt] obtain vs where
        vs: "list_all2 (\<lambda>e v. edgeValue g cur bev ord idx e = Inr v)
                 (filter (\<lambda>e. targetName node e = Some nm) es) vs"
        and r: "r nm = (if filter (\<lambda>e. targetName node e = Some nm) es = []
                        then addToInput acc (port_name p) v nm
                        else Some (Number (foldl dadd
                               (case addToInput acc (port_name p) v nm of Some (Number x) \<Rightarrow> x | _ \<Rightarrow> Finite 0) vs)))"
        by blast
      show ?thesis using vs r False Some unfolding same
        by (intro exI [of _ vs]) (simp add: targetName_def)
    qed
  qed
qed

lemma gatherInputs_Inr:
  "gatherInputs nodeId node g cur bev ord = Inr r \<Longrightarrow>
     indexOf ord nodeId \<noteq> -1 \<and>
     gatherLoop node g cur bev ord (indexOf ord nodeId)
       (filter (\<lambda>edge. toNodeId edge = nodeId) (edges g)) Map.empty = Inr r"
  by (auto simp: gatherInputs_def Let_def split: if_splits)

text \<open>
  C1 (as amended). Let \<open>idx\<close> be the position of the edge's destination in the
  execution order (it is in the order). When the position of the edge's source is
  strictly greater than \<open>idx\<close>, the edge is a back edge: its value is
  \<open>backEdgeValues["sourceNodeId.sourcePortId"]\<close>, or 0 when that key is absent. A
  self-loop, whose source position equals \<open>idx\<close>, is resolved as a forward edge: it
  reads the outputs of the running iteration, and its value is 0 when the node has
  produced none yet.
\<close>

theorem edgeValue_back_edge:
  "(indexOf ord (toNodeId e) \<noteq> -1 \<and> indexOf ord (fromNodeId e) > indexOf ord (toNodeId e) \<longrightarrow>
      edgeValue g cur bev ord (indexOf ord (toNodeId e)) e =
        Inr (case bev (backEdgeKey (fromNodeId e) (fromPortId e)) of None \<Rightarrow> Finite 0 | Some v \<Rightarrow> v)) \<and>
   (indexOf ord (toNodeId e) \<noteq> -1 \<and> fromNodeId e = toNodeId e \<and> map_of cur (toNodeId e) = None \<longrightarrow>
      edgeValue g cur bev ord (indexOf ord (toNodeId e)) e = Inr (Finite 0))"
proof -
  have "indexOf ord (toNodeId e) \<ge> -1" by (rule indexOf_ge)
  then show ?thesis
    by (auto simp: edgeValue_def Let_def)
qed

text \<open>
  The theorem at the edge from \<open>A\<close> to \<open>B\<close> of \<open>cycleGraph\<close> in the order \<open>C, B, A\<close>, with 7
  bound to \<open>A.delta\<close>; and at the self-loop of \<open>selfLoopGraph\<close>, whose value is 0 though
  7 is bound to its key.
\<close>

theorem edgeValue_back_edge_witness:
  "indexOf [''C'', ''B'', ''A''] ''B'' \<noteq> -1 \<and>
   indexOf [''C'', ''B'', ''A''] ''A'' > indexOf [''C'', ''B'', ''A''] ''B'' \<and>
   edgeValue cycleGraph [(''C'', VObj [(''delta'', VNum (Finite 0))])] [''A.delta'' \<mapsto> Finite 7] [''C'', ''B'', ''A'']
     (indexOf [''C'', ''B'', ''A''] ''B'') (mkEdge ''e1'' ''A'' ''delta'' ''B'' ''delta'') = Inr (Finite 7) \<and>
   edgeValue selfLoopGraph [(''SOURCE'', VObj [(''delta'', VNum (Finite 1))])] [''A.delta'' \<mapsto> Finite 7] [''SOURCE'', ''A'']
     (indexOf [''SOURCE'', ''A''] ''A'') (mkEdge ''e-a-a'' ''A'' ''delta'' ''A'' ''delta'') = Inr (Finite 0)"
  using edgeValue_back_edge [of "[''C'', ''B'', ''A'']" "mkEdge ''e1'' ''A'' ''delta'' ''B'' ''delta''"
          cycleGraph "[(''C'', VObj [(''delta'', VNum (Finite 0))])]" "[''A.delta'' \<mapsto> Finite 7]"]
        edgeValue_back_edge [of "[''SOURCE'', ''A'']" "mkEdge ''e-a-a'' ''A'' ''delta'' ''A'' ''delta''"
          selfLoopGraph "[(''SOURCE'', VObj [(''delta'', VNum (Finite 1))])]" "[''A.delta'' \<mapsto> Finite 7]"]
  by (simp add: mkEdge_def backEdgeKey_def)

text \<open>
  C1 as stated fails at a self-loop. In \<open>selfLoopGraph\<close> under MultiPass the order is
  \<open>SOURCE, A\<close>; the first iteration leaves \<open>A.delta = 1\<close>, so in iteration 2 the key
  \<open>A.delta\<close> of the back-edge values is bound to 1. The edge from \<open>A\<close> to \<open>A\<close> has source
  and destination at position 1, and its value in iteration 2 is 0, not 1.
\<close>

theorem self_loop_counterexample:
  "modifiedTopologicalSort selfLoopGraph = Some [''SOURCE'', ''A''] \<and>
   resultsAt MultiPass_getBackEdgeValues selfLoopGraph [''SOURCE'', ''A''] (initialStateMap selfLoopGraph None) 1 =
     [(''SOURCE'', VObj [(''delta'', VNum (Finite 1))]), (''A'', VObj [(''delta'', VNum (Finite 1))])] \<and>
   indexOf [''SOURCE'', ''A''] ''A'' = 1 \<and>
   MultiPass_getBackEdgeValues 2 (Some [(''SOURCE'', VObj [(''delta'', VNum (Finite 1))]), (''A'', VObj [(''delta'', VNum (Finite 1))])])
     (backEdgeKey ''A'' ''delta'') = Some (Finite 1) \<and>
   edgeValue selfLoopGraph [(''SOURCE'', VObj [(''delta'', VNum (Finite 1))])]
     (MultiPass_getBackEdgeValues 2 (Some [(''SOURCE'', VObj [(''delta'', VNum (Finite 1))]), (''A'', VObj [(''delta'', VNum (Finite 1))])]))
     [''SOURCE'', ''A''] 1 (mkEdge ''e-a-a'' ''A'' ''delta'' ''A'' ''delta'') = Inr (Finite 0)"
  by code_simp

text \<open>
  C7 (as amended). When \<open>gatherInputs\<close> returns the record \<open>r\<close>, \<open>pid\<close> resolves to the
  input port \<open>p\<close> of the node, the name of \<open>p\<close> is none the record inherits, at least
  one edge of the graph targets the node at \<open>pid\<close>, and every incoming edge that
  resolves to a port of the same name as \<open>p\<close> targets \<open>pid\<close>, then each of the edges
  targeting \<open>pid\<close> resolved to a value, and the entry of \<open>r\<close> under the name of \<open>p\<close> is
  the number \<open>0 + v1 + ... + vk\<close>: the sum of these values, added in the order of the
  edges in the arithmetic of doubles.
\<close>

theorem gatherInputs_fan_in:
  assumes ret: "gatherInputs nodeId node g cur bev ord = Inr r"
    and port: "findPort (inputs node) pid = Some p"
    and plain: "port_name p \<notin> inheritedNames"
    and fed: "filter (\<lambda>e. toNodeId e = nodeId \<and> toPortId e = pid) (edges g) \<noteq> []"
    and name: "\<forall>e \<in> set (edges g). \<forall>q. toNodeId e = nodeId \<longrightarrow>
                 findPort (inputs node) (toPortId e) = Some q \<longrightarrow> port_name q = port_name p \<longrightarrow> toPortId e = pid"
  shows "\<exists>vs. list_all2 (\<lambda>e v. edgeValue g cur bev ord (indexOf ord nodeId) e = Inr v)
                 (filter (\<lambda>e. toNodeId e = nodeId \<and> toPortId e = pid) (edges g)) vs \<and>
              r (port_name p) = Some (Number (foldl dadd (Finite 0) vs))"
proof -
  let ?inc = "filter (\<lambda>edge. toNodeId edge = nodeId) (edges g)"
  have same: "filter (\<lambda>e. targetName node e = Some (port_name p)) ?inc
                = filter (\<lambda>e. toNodeId e = nodeId \<and> toPortId e = pid) (edges g)"
  proof -
    have "\<And>e. e \<in> set (edges g) \<Longrightarrow>
            (toNodeId e = nodeId \<and> targetName node e = Some (port_name p)) =
            (toNodeId e = nodeId \<and> toPortId e = pid)"
      using name port by (auto simp: targetName_def)
    then have "filter (\<lambda>e. toNodeId e = nodeId \<and> targetName node e = Some (port_name p)) (edges g)
                = filter (\<lambda>e. toNodeId e = nodeId \<and> toPortId e = pid) (edges g)"
      by (rule filter_cong [OF refl])
    then show ?thesis by (simp only: filter_filter)
  qed
  from gatherInputs_Inr [OF ret]
  have "gatherLoop node g cur bev ord (indexOf ord nodeId) ?inc Map.empty = Inr r" by simp
  note res = gatherLoop_result [OF this plain, unfolded same]
  show ?thesis using res fed by auto
qed

text \<open>
  The theorem at node \<open>B\<close> of \<open>fanInGraph\<close>, fed by the constants 2 and 3: the entry
  is 5.
\<close>

theorem gatherInputs_fan_in_witness:
  "gatherInputs ''B'' (createVariableNode ''B'' (Finite 0)) fanInGraph
      [(''A1'', VObj [(''delta'', VNum (Finite 2))]), (''A2'', VObj [(''delta'', VNum (Finite 3))])] Map.empty [''A1'', ''A2'', ''B'']
     = Inr [''delta'' \<mapsto> Number (Finite 5)] \<and>
   ''delta'' \<notin> inheritedNames \<and>
   (\<exists>vs. list_all2 (\<lambda>e v. edgeValue fanInGraph
              [(''A1'', VObj [(''delta'', VNum (Finite 2))]), (''A2'', VObj [(''delta'', VNum (Finite 3))])] Map.empty
              [''A1'', ''A2'', ''B''] (indexOf [''A1'', ''A2'', ''B''] ''B'') e = Inr v)
            [mkEdge ''e1'' ''A1'' ''delta'' ''B'' ''delta'', mkEdge ''e2'' ''A2'' ''delta'' ''B'' ''delta''] vs \<and>
          foldl dadd (Finite 0) vs = Finite 5)"
proof -
  let ?cur = "[(''A1'', VObj [(''delta'', VNum (Finite 2))]), (''A2'', VObj [(''delta'', VNum (Finite 3))])]"
  let ?ord = "[''A1'', ''A2'', ''B'']"
  let ?p = "\<lparr>port_id = ''delta'', port_name = ''delta'', port_kind = InputKind\<rparr>"
  have ret: "gatherInputs ''B'' (createVariableNode ''B'' (Finite 0)) fanInGraph ?cur Map.empty ?ord
               = Inr [''delta'' \<mapsto> Number (Finite 5)]"
    by (simp add: engine_defs fanInGraph_def round_small)
  have port: "findPort (inputs (createVariableNode ''B'' (Finite 0))) ''delta'' = Some ?p"
    by (simp add: findPort_def createVariableNode_def)
  have plain: "port_name ?p \<notin> inheritedNames"
    by (simp add: inheritedNames_def objectPrototype_def)
  have fl: "filter (\<lambda>e. toNodeId e = ''B'' \<and> toPortId e = ''delta'') (edges fanInGraph) =
              [mkEdge ''e1'' ''A1'' ''delta'' ''B'' ''delta'', mkEdge ''e2'' ''A2'' ''delta'' ''B'' ''delta'']"
    by (simp add: fanInGraph_def mkEdge_def)
  have fed: "filter (\<lambda>e. toNodeId e = ''B'' \<and> toPortId e = ''delta'') (edges fanInGraph) \<noteq> []"
    by (simp add: fl)
  have name: "\<forall>e \<in> set (edges fanInGraph). \<forall>q. toNodeId e = ''B'' \<longrightarrow>
                 findPort (inputs (createVariableNode ''B'' (Finite 0))) (toPortId e) = Some q \<longrightarrow>
                 port_name q = port_name ?p \<longrightarrow> toPortId e = ''delta''"
    by (simp add: fanInGraph_def mkEdge_def)
  from gatherInputs_fan_in [OF ret port plain fed name]
  show ?thesis using ret plain by (auto simp: fl)
qed

text \<open>
  C7 as stated fails where two ports share a name, and where a port has a name the
  record inherits. The node \<open>N\<close> of \<open>sharedNameGraph\<close> has the input ports \<open>a\<close> and \<open>b\<close>,
  both named \<open>x\<close>. Port \<open>a\<close> is fed by one edge, whose value is 1; the record holds 3
  under \<open>x\<close>, the sum over the edges of both ports. The node \<open>N\<close> of
  \<open>namedPortGraph "toString"\<close> has one port, named \<open>toString\<close>, fed by one edge whose
  value is 1; the record holds no number under that name, but the string of the
  inherited function followed by the text of 1.
\<close>

theorem shared_name_fan_in_counterexample:
  "findPort (inputs (sharedNameNode ''N'')) ''a'' = Some \<lparr>port_id = ''a'', port_name = ''x'', port_kind = InputKind\<rparr> \<and>
   filter (\<lambda>e. toNodeId e = ''N'' \<and> toPortId e = ''a'') (edges sharedNameGraph) =
     [mkEdge ''e1'' ''S1'' ''delta'' ''N'' ''a''] \<and>
   edgeValue sharedNameGraph [(''S1'', VObj [(''delta'', VNum (Finite 1))]), (''S2'', VObj [(''delta'', VNum (Finite 2))])]
     Map.empty [''S1'', ''S2'', ''N''] (indexOf [''S1'', ''S2'', ''N''] ''N'')
     (mkEdge ''e1'' ''S1'' ''delta'' ''N'' ''a'') = Inr (Finite 1) \<and>
   gatherInputs ''N'' (sharedNameNode ''N'') sharedNameGraph
     [(''S1'', VObj [(''delta'', VNum (Finite 1))]), (''S2'', VObj [(''delta'', VNum (Finite 2))])]
     Map.empty [''S1'', ''S2'', ''N''] = Inr [''x'' \<mapsto> Number (Finite 3)] \<and>
   filter (\<lambda>e. toNodeId e = ''N'' \<and> toPortId e = ''in'') (edges (namedPortGraph ''toString'')) =
     [mkEdge ''e1'' ''S1'' ''delta'' ''N'' ''in''] \<and>
   edgeValue (namedPortGraph ''toString'') [(''S1'', VObj [(''delta'', VNum (Finite 1))])]
     Map.empty [''S1'', ''N''] (indexOf [''S1'', ''N''] ''N'')
     (mkEdge ''e1'' ''S1'' ''delta'' ''N'' ''in'') = Inr (Finite 1) \<and>
   gatherInputs ''N'' (namedPortNode ''N'' ''toString'') (namedPortGraph ''toString'')
     [(''S1'', VObj [(''delta'', VNum (Finite 1))])] Map.empty [''S1'', ''N''] =
       Inr [''toString'' \<mapsto> Text ''function toString() { [native code] }'' [Finite 1]]"
  by (simp add: engine_defs sharedNameGraph_def sharedNameNode_def namedPortGraph_def namedPortNode_def round_small)

text \<open>
  C10 (as amended). When \<open>gatherInputs\<close> returns the record \<open>r\<close>, a name the record
  does not inherit is an own key of \<open>r\<close> exactly when some edge of the graph targets
  the node and its \<open>toPortId\<close> resolves to an input port of the node with that name.
  So a port of such a name has no entry, not even 0, and reads \<open>undefined\<close>, exactly
  when no incoming edge resolves to it or to a port sharing its name.
\<close>

theorem gatherInputs_keys:
  assumes "gatherInputs nodeId node g cur bev ord = Inr r" and "nm \<notin> inheritedNames"
  shows "nm \<in> dom r \<longleftrightarrow>
           (\<exists>e \<in> set (edges g). toNodeId e = nodeId \<and>
              (\<exists>p. findPort (inputs node) (toPortId e) = Some p \<and> port_name p = nm))"
proof -
  let ?inc = "filter (\<lambda>edge. toNodeId edge = nodeId) (edges g)"
  from gatherInputs_Inr [OF assms(1)]
  have "gatherLoop node g cur bev ord (indexOf ord nodeId) ?inc Map.empty = Inr r" by simp
  from gatherLoop_result [OF this assms(2)]
  have "nm \<in> dom r \<longleftrightarrow> filter (\<lambda>e. targetName node e = Some nm) ?inc \<noteq> []"
    by (auto split: if_splits)
  also have "\<dots> \<longleftrightarrow> (\<exists>e \<in> set (edges g). toNodeId e = nodeId \<and>
              (\<exists>p. findPort (inputs node) (toPortId e) = Some p \<and> port_name p = nm))"
    by (auto simp: filter_empty_conv targetName_def)
  finally show ?thesis .
qed

text \<open>
  The theorem at node \<open>N\<close> of \<open>twoPortGraph\<close>, whose port \<open>p\<close> has an incoming edge and
  whose port \<open>q\<close> has none: the record has the key \<open>p\<close> and no key \<open>q\<close>.
\<close>

theorem gatherInputs_keys_witness:
  "gatherInputs ''N'' (twoPortNode ''N'') twoPortGraph [(''S1'', VObj [(''delta'', VNum (Finite 1))])] Map.empty [''S1'', ''N'']
     = Inr [''p'' \<mapsto> Number (Finite 1)] \<and>
   ''p'' \<notin> inheritedNames \<and> ''q'' \<notin> inheritedNames \<and>
   ''p'' \<in> dom [''p'' \<mapsto> Number (Finite 1)] \<and> ''q'' \<notin> dom [''p'' \<mapsto> Number (Finite 1)] \<and>
   (\<exists>e \<in> set (edges twoPortGraph). toNodeId e = ''N'' \<and>
       (\<exists>p. findPort (inputs (twoPortNode ''N'')) (toPortId e) = Some p \<and> port_name p = ''p'')) \<and>
   \<not> (\<exists>e \<in> set (edges twoPortGraph). toNodeId e = ''N'' \<and>
       (\<exists>p. findPort (inputs (twoPortNode ''N'')) (toPortId e) = Some p \<and> port_name p = ''q''))"
proof -
  have ret: "gatherInputs ''N'' (twoPortNode ''N'') twoPortGraph [(''S1'', VObj [(''delta'', VNum (Finite 1))])]
               Map.empty [''S1'', ''N''] = Inr [''p'' \<mapsto> Number (Finite 1)]"
    by (simp add: engine_defs twoPortGraph_def twoPortNode_def round_small)
  have p: "''p'' \<notin> inheritedNames" and q: "''q'' \<notin> inheritedNames"
    by (simp_all add: inheritedNames_def objectPrototype_def)
  from gatherInputs_keys [OF ret p] gatherInputs_keys [OF ret q] ret p q
  show ?thesis by simp
qed

text \<open>
  C10 as stated fails where two ports share a name, and where a port has a name the
  record inherits. In \<open>oneEdgeGraph\<close> no edge targets port \<open>b\<close> of node \<open>N\<close>, yet the
  record has an entry under \<open>x\<close>, the name of \<open>b\<close>: the value of the edge into port
  \<open>a\<close>. In \<open>namedPortGraph "__proto__"\<close> an edge targets the one port of node \<open>N\<close>,
  named \<open>__proto__\<close>, yet the record has no entry at all.
\<close>

theorem shared_name_key_counterexample:
  "findPort (inputs (sharedNameNode ''N'')) ''b'' = Some \<lparr>port_id = ''b'', port_name = ''x'', port_kind = InputKind\<rparr> \<and>
   filter (\<lambda>e. toNodeId e = ''N'' \<and> toPortId e = ''b'') (edges oneEdgeGraph) = [] \<and>
   gatherInputs ''N'' (sharedNameNode ''N'') oneEdgeGraph [(''S1'', VObj [(''delta'', VNum (Finite 1))])]
     Map.empty [''S1'', ''N''] = Inr [''x'' \<mapsto> Number (Finite 1)] \<and>
   findPort (inputs (namedPortNode ''N'' ''__proto__'')) ''in'' =
     Some \<lparr>port_id = ''in'', port_name = ''__proto__'', port_kind = InputKind\<rparr> \<and>
   filter (\<lambda>e. toNodeId e = ''N'' \<and> toPortId e = ''in'') (edges (namedPortGraph ''__proto__'')) =
     [mkEdge ''e1'' ''S1'' ''delta'' ''N'' ''in''] \<and>
   gatherInputs ''N'' (namedPortNode ''N'' ''__proto__'') (namedPortGraph ''__proto__'')
     [(''S1'', VObj [(''delta'', VNum (Finite 1))])] Map.empty [''S1'', ''N''] = Inr Map.empty"
  by (simp add: engine_defs oneEdgeGraph_def sharedNameNode_def namedPortGraph_def namedPortNode_def round_small)

section \<open>Engine: consistency errors\<close>

lemma gatherLoop_error:
  "gatherLoop node g cur bev ord idx es acc = Inl err \<Longrightarrow>
     \<exists>e \<in> set es. err = SourceNotFoundInOrder (fromNodeId e) \<and> fromNodeId e \<notin> set ord"
proof (induction es arbitrary: acc)
  case Nil
  then show ?case by simp
next
  case (Cons e es)
  show ?case
  proof (cases "findPort (inputs node) (toPortId e)")
    case None
    with Cons show ?thesis by auto
  next
    case (Some p)
    show ?thesis
    proof (cases "edgeValue g cur bev ord idx e")
      case (Inl x)
      then have "x = SourceNotFoundInOrder (fromNodeId e) \<and> indexOf ord (fromNodeId e) = -1"
        by (auto simp: edgeValue_def Let_def split: if_splits option.splits val.splits)
      with Inl Some Cons.prems show ?thesis by (auto simp: indexOf_notin)
    next
      case (Inr v)
      with Some Cons show ?thesis by auto
    qed
  qed
qed

lemma gatherLoop_missing_source:
  "e \<in> set es \<Longrightarrow> findPort (inputs node) (toPortId e) = Some p \<Longrightarrow> fromNodeId e \<notin> set ord \<Longrightarrow>
     \<exists>err. gatherLoop node g cur bev ord idx es acc = Inl err"
proof (induction es arbitrary: acc)
  case Nil
  then show ?case by simp
next
  case (Cons x es)
  show ?case
  proof (cases "x = e")
    case True
    have "indexOf ord (fromNodeId e) = -1" using Cons.prems by (simp add: indexOf_notin)
    then have "edgeValue g cur bev ord idx e = Inl (SourceNotFoundInOrder (fromNodeId e))"
      by (simp add: edgeValue_def)
    with True Cons.prems show ?thesis by simp
  next
    case False
    with Cons.prems have "e \<in> set es" by simp
    from Cons.IH [OF this Cons.prems(2,3)] show ?thesis
      by (auto split: option.splits sum.splits)
  qed
qed

lemma gatherInputs_error:
  "gatherInputs n node g cur bev ord = Inl err \<Longrightarrow> n \<in> set ord \<Longrightarrow>
     \<exists>e \<in> set (edges g). toNodeId e = n \<and> err = SourceNotFoundInOrder (fromNodeId e) \<and> fromNodeId e \<notin> set ord"
proof -
  assume a: "gatherInputs n node g cur bev ord = Inl err" and n: "n \<in> set ord"
  from n have "indexOf ord n \<noteq> -1" by (simp add: indexOf_notin)
  with a have "gatherLoop node g cur bev ord (indexOf ord n)
                 (filter (\<lambda>edge. toNodeId edge = n) (edges g)) Map.empty = Inl err"
    by (simp add: gatherInputs_def Let_def)
  from gatherLoop_error [OF this] show ?thesis by auto
qed

lemma runNodes_error:
  "runNodes g it bev ord rest r = Inl err \<Longrightarrow> set rest \<subseteq> set ord \<Longrightarrow> justified g ord err"
proof (induction rest arbitrary: r)
  case Nil
  then show ?case by simp
next
  case (Cons n rest)
  show ?case
  proof (cases "map_of (nodes g) n")
    case None
    with Cons.prems show ?thesis by (auto simp: justified_def)
  next
    case (Some node)
    show ?thesis
    proof (cases "gatherInputs n node g (currentResults r) bev ord")
      case (Inl x)
      with Some Cons.prems have "err = x" by simp
      moreover from gatherInputs_error [OF Inl] Cons.prems(2)
      obtain e where "e \<in> set (edges g)" "toNodeId e = n" "x = SourceNotFoundInOrder (fromNodeId e)"
        "fromNodeId e \<notin> set ord" by auto
      ultimately show ?thesis using Cons.prems(2) by (auto simp: justified_def)
    next
      case (Inr inputValues)
      show ?thesis
      proof (cases "calculate node inputValues \<lparr>ctx_nodeId = n, ctx_iteration = it\<rparr> (getState (stateMap r) n)")
        case (Inl x)
        with Some Inr Cons.prems have "err = x" by simp
        with Inl Some show ?thesis by (auto simp: justified_def thrownByNode_def)
      next
        case Inr2: (Inr y)
        obtain o1 s1 where "y = (o1, s1)" by (cases y)
        with Some Inr Inr2 Cons.prems Cons.IH show ?thesis by auto
      qed
    qed
  qed
qed

lemma runNodes_missing_node:
  "n \<in> set rest \<Longrightarrow> map_of (nodes g) n = None \<Longrightarrow> \<exists>err. runNodes g it bev ord rest r = Inl err"
proof (induction rest arbitrary: r)
  case Nil
  then show ?case by simp
next
  case (Cons x rest)
  show ?case
  proof (cases "x = n")
    case True
    with Cons.prems show ?thesis by simp
  next
    case False
    with Cons.prems have "n \<in> set rest" by simp
    from Cons.IH [OF this Cons.prems(2)] show ?thesis
      by (auto split: option.splits sum.splits prod.splits)
  qed
qed

lemma runNodes_missing_source:
  "toNodeId e \<in> set rest \<Longrightarrow> set rest \<subseteq> set ord \<Longrightarrow> e \<in> set (edges g) \<Longrightarrow>
   map_of (nodes g) (toNodeId e) = Some node \<Longrightarrow> findPort (inputs node) (toPortId e) = Some p \<Longrightarrow>
   fromNodeId e \<notin> set ord \<Longrightarrow> \<exists>err. runNodes g it bev ord rest r = Inl err"
proof (induction rest arbitrary: r)
  case Nil
  then show ?case by simp
next
  case (Cons x rest)
  show ?case
  proof (cases "x = toNodeId e")
    case True
    have "indexOf ord (toNodeId e) \<noteq> -1" using Cons.prems(1,2) by (auto simp: indexOf_notin)
    moreover have "e \<in> set (filter (\<lambda>edge. toNodeId edge = toNodeId e) (edges g))"
      using Cons.prems(3) by simp
    from gatherLoop_missing_source [OF this Cons.prems(5,6)]
    have "\<exists>err. gatherLoop node g (currentResults r) bev ord (indexOf ord (toNodeId e))
             (filter (\<lambda>edge. toNodeId edge = toNodeId e) (edges g)) Map.empty = Inl err" .
    ultimately have "\<exists>err. gatherInputs (toNodeId e) node g (currentResults r) bev ord = Inl err"
      by (simp add: gatherInputs_def Let_def)
    with True Cons.prems(4) show ?thesis by auto
  next
    case False
    with Cons.prems have "toNodeId e \<in> set rest" "set rest \<subseteq> set ord" by auto
    from Cons.IH [OF this Cons.prems(3-6)] show ?thesis
      by (auto split: option.splits sum.splits prod.splits)
  qed
qed

text \<open>
  An edge that is not gathered changes nothing: two graphs with the same nodes and
  the same gathered edges run alike in the order \<open>ord\<close>.
\<close>

lemma edgeValue_nodes:
  assumes "nodes g' = nodes g"
  shows "edgeValue g' cur bev ord idx e = edgeValue g cur bev ord idx e"
  unfolding edgeValue_def assms ..

lemma gatherLoop_nodes:
  "nodes g' = nodes g \<Longrightarrow>
     gatherLoop node g' cur bev ord idx es acc = gatherLoop node g cur bev ord idx es acc"
proof (induction es arbitrary: acc)
  case Nil
  show ?case by simp
next
  case (Cons e es)
  show ?case
    by (simp add: edgeValue_nodes [OF Cons.prems] Cons.IH [OF Cons.prems] split: option.splits sum.splits)
qed

lemma gatherLoop_known_ports:
  "gatherLoop node g cur bev ord idx (filter (\<lambda>e. findPort (inputs node) (toPortId e) \<noteq> None) es) acc =
     gatherLoop node g cur bev ord idx es acc"
  by (induction es arbitrary: acc) (auto split: option.splits sum.splits)

lemma gatherInputs_gathered:
  assumes n: "n \<in> set ord" and node: "map_of (nodes g) n = Some node"
  shows "gatherInputs n node g cur bev ord =
           gatherLoop node g cur bev ord (indexOf ord n)
             (filter (\<lambda>e. toNodeId e = n) (filter (gathered g ord) (edges g))) Map.empty"
proof -
  have idx: "indexOf ord n \<noteq> -1" using n by (simp add: indexOf_notin)
  have "\<And>e. (gathered g ord e \<and> toNodeId e = n) =
           (toNodeId e = n \<and> findPort (inputs node) (toPortId e) \<noteq> None)"
    using n node by (auto simp: gathered_def)
  then have f: "filter (\<lambda>e. toNodeId e = n) (filter (gathered g ord) (edges g)) =
          filter (\<lambda>e. findPort (inputs node) (toPortId e) \<noteq> None) (filter (\<lambda>e. toNodeId e = n) (edges g))"
    by (simp add: conj_commute)
  show ?thesis
    unfolding f gatherLoop_known_ports using idx by (simp add: gatherInputs_def Let_def)
qed

lemma gatherInputs_same_gathered:
  assumes nodes: "nodes g' = nodes g"
    and edges: "filter (gathered g ord) (edges g') = filter (gathered g ord) (edges g)"
    and n: "n \<in> set ord" and node: "map_of (nodes g) n = Some node"
  shows "gatherInputs n node g' cur bev ord = gatherInputs n node g cur bev ord"
proof -
  have gg: "gathered g' ord = gathered g ord"
    using nodes by (simp add: gathered_def fun_eq_iff)
  have node': "map_of (nodes g') n = Some node" using node nodes by simp
  show ?thesis
    unfolding gatherInputs_gathered [OF n node] gatherInputs_gathered [OF n node'] gg edges
    by (rule gatherLoop_nodes [OF nodes])
qed

lemma runNodes_same_gathered:
  assumes nodes: "nodes g' = nodes g"
    and edges: "filter (gathered g ord) (edges g') = filter (gathered g ord) (edges g)"
  shows "set rest \<subseteq> set ord \<Longrightarrow> runNodes g' it bev ord rest r = runNodes g it bev ord rest r"
proof (induction rest arbitrary: r)
  case Nil
  show ?case by simp
next
  case (Cons n rest)
  have n: "n \<in> set ord" and rest: "set rest \<subseteq> set ord" using Cons.prems by simp_all
  show ?case
  proof (cases "map_of (nodes g) n")
    case None
    then show ?thesis using nodes by simp
  next
    case (Some node)
    show ?thesis
      using Some nodes gatherInputs_same_gathered [OF nodes edges n Some] Cons.IH [OF rest]
      by (simp split: sum.splits prod.splits)
  qed
qed

lemma executeLoop_same_gathered:
  assumes nodes: "nodes g' = nodes g"
    and edges: "filter (gathered g ord) (edges g') = filter (gathered g ord) (edges g)"
    and ord: "determineExecutionOrder strategy g = Some ord"
    and ord': "determineExecutionOrder strategy g' = Some ord"
  shows "executeLoop fuel strategy ss g' it prev sm outs = executeLoop fuel strategy ss g it prev sm outs"
proof (induction fuel arbitrary: ss it prev sm outs)
  case 0
  show ?case by simp
next
  case (Suc fuel)
  show ?case
    using ord ord' runNodes_same_gathered [OF nodes edges, of ord] Suc.IH
    by (simp split: sum.splits prod.splits bool.splits)
qed

text \<open>
  C2 (as amended). Let \<open>ord\<close> be the order the strategy computes. If an id of \<open>ord\<close>
  is no node of the graph, or some edge into an existing input port of a node that
  is in \<open>ord\<close> and in the graph has a source missing from \<open>ord\<close>, then \<open>execute\<close>
  aborts in its first iteration, and the error is justified: it names such an id
  of the order or such a source, unless a node's \<open>calculate\<close> threw first. Every
  other edge, one whose destination is not in \<open>ord\<close>, or is no node, or has no input
  port of the edge's \<open>toPortId\<close>, is skipped without an error, whatever its source:
  a graph with the same nodes that differs in such edges only, and for which the
  strategy computes the same order, gives the same result.
\<close>

theorem execute_aborts_on_inconsistency:
  assumes ord: "determineExecutionOrder strategy g = Some ord"
  shows "((\<exists>n \<in> set ord. map_of (nodes g) n = None) \<or>
          (\<exists>e \<in> set (edges g). gathered g ord e \<and> fromNodeId e \<notin> set ord) \<longrightarrow>
            (\<exists>err. execute (Suc fuel) strategy ss g initialState = Some (Inl err, ss) \<and> justified g ord err)) \<and>
         (nodes g' = nodes g \<and> filter (gathered g ord) (edges g') = filter (gathered g ord) (edges g) \<and>
          determineExecutionOrder strategy g' = Some ord \<longrightarrow>
            execute fuel' strategy ss g' initialState = execute fuel' strategy ss g initialState)"
proof (intro conjI impI)
  assume bad: "(\<exists>n \<in> set ord. map_of (nodes g) n = None) \<or>
          (\<exists>e \<in> set (edges g). gathered g ord e \<and> fromNodeId e \<notin> set ord)"
  let ?r0 = "\<lparr>stateMap = initialStateMap g initialState, currentResults = [], outputsMap = []\<rparr>"
  let ?bev = "getBackEdgeValues strategy (0 + 1) None"
  have "\<exists>err. runNodes g (0 + 1) ?bev ord ord ?r0 = Inl err"
    using bad
  proof
    assume "\<exists>n \<in> set ord. map_of (nodes g) n = None"
    then show ?thesis using runNodes_missing_node by blast
  next
    assume "\<exists>e \<in> set (edges g). gathered g ord e \<and> fromNodeId e \<notin> set ord"
    then obtain e node p where "e \<in> set (edges g)" "toNodeId e \<in> set ord"
      "map_of (nodes g) (toNodeId e) = Some node" "findPort (inputs node) (toPortId e) = Some p"
      "fromNodeId e \<notin> set ord" unfolding gathered_def by blast
    then show ?thesis using runNodes_missing_source [of e ord ord g node p] by blast
  qed
  then obtain err where e: "runNodes g (0 + 1) ?bev ord ord ?r0 = Inl err" by blast
  from runNodes_error [OF e] have "justified g ord err" by simp
  moreover have "execute (Suc fuel) strategy ss g initialState = Some (Inl err, ss)"
    using ord e by (simp add: execute_def)
  ultimately show "\<exists>err. execute (Suc fuel) strategy ss g initialState = Some (Inl err, ss) \<and> justified g ord err"
    by blast
next
  assume same: "nodes g' = nodes g \<and> filter (gathered g ord) (edges g') = filter (gathered g ord) (edges g) \<and>
          determineExecutionOrder strategy g' = Some ord"
  then have "initialStateMap g' initialState = initialStateMap g initialState"
    by (simp add: initialStateMap_def)
  then show "execute fuel' strategy ss g' initialState = execute fuel' strategy ss g initialState"
    using same executeLoop_same_gathered [OF _ _ ord, of g'] by (simp add: execute_def)
qed

text \<open>
  The theorem at \<open>danglingSourceGraph\<close> under SinglePass: the source \<open>Z\<close> of the edge
  into \<open>A\<close> is not in the order, and the run aborts naming \<open>Z\<close>. And at
  \<open>unknownPortGraph\<close>: its edge from \<open>Z\<close> into the port \<open>nope\<close> of \<open>B\<close> is not gathered,
  and the run returns what it returns on \<open>knownPortGraph\<close>, which lacks that edge.
\<close>

theorem execute_aborts_on_inconsistency_witness:
  "determineExecutionOrder SinglePassStrategy danglingSourceGraph = Some [''A''] \<and>
   execute (Suc 0) SinglePassStrategy () danglingSourceGraph None = Some (Inl (SourceNotFoundInOrder ''Z''), ()) \<and>
   determineExecutionOrder SinglePassStrategy knownPortGraph = Some [''A'', ''B''] \<and>
   determineExecutionOrder SinglePassStrategy unknownPortGraph = Some [''A'', ''B''] \<and>
   nodes unknownPortGraph = nodes knownPortGraph \<and>
   filter (gathered knownPortGraph [''A'', ''B'']) (edges unknownPortGraph) = edges knownPortGraph \<and>
   execute 1 SinglePassStrategy () unknownPortGraph None =
     Some (Inr \<lparr>res_state = [(''A'', VObj []), (''B'', VObj [(''value'', VNum (Finite 1))])],
               res_outputs = [(''A'', VObj [(''delta'', VNum (Finite 1))]), (''B'', VObj [(''delta'', VNum (Finite 1))])],
               iterations = 1\<rparr>, ())"
proof -
  have ord: "determineExecutionOrder SinglePassStrategy danglingSourceGraph = Some [''A'']"
    by code_simp
  have bad: "(\<exists>n \<in> set [''A'']. map_of (nodes danglingSourceGraph) n = None) \<or>
              (\<exists>e \<in> set (edges danglingSourceGraph). gathered danglingSourceGraph [''A''] e \<and> fromNodeId e \<notin> set [''A''])"
    by (simp add: danglingSourceGraph_def mkEdge_def createVariableNode_def findPort_def gathered_def)
  from execute_aborts_on_inconsistency [OF ord, of 0 "()" None] bad
  obtain err where e: "execute (Suc 0) SinglePassStrategy () danglingSourceGraph None = Some (Inl err, ())"
    by blast
  have a: "execute (Suc 0) SinglePassStrategy () danglingSourceGraph None = Some (Inl (SourceNotFoundInOrder ''Z''), ())"
    by code_simp
  have ok: "determineExecutionOrder SinglePassStrategy knownPortGraph = Some [''A'', ''B'']"
    by code_simp
  have ok': "determineExecutionOrder SinglePassStrategy unknownPortGraph = Some [''A'', ''B'']"
    by code_simp
  have ns: "nodes unknownPortGraph = nodes knownPortGraph"
    by (simp add: unknownPortGraph_def knownPortGraph_def)
  have f1: "filter (gathered knownPortGraph [''A'', ''B'']) (edges unknownPortGraph) = edges knownPortGraph"
    by (simp add: unknownPortGraph_def knownPortGraph_def gathered_def mkEdge_def createVariableNode_def
          createConstantNode_def findPort_def)
  have f2: "filter (gathered knownPortGraph [''A'', ''B'']) (edges knownPortGraph) = edges knownPortGraph"
    by (simp add: knownPortGraph_def gathered_def mkEdge_def createVariableNode_def
          createConstantNode_def findPort_def)
  have run: "execute 1 SinglePassStrategy () knownPortGraph None =
     Some (Inr \<lparr>res_state = [(''A'', VObj []), (''B'', VObj [(''value'', VNum (Finite 1))])],
               res_outputs = [(''A'', VObj [(''delta'', VNum (Finite 1))]), (''B'', VObj [(''delta'', VNum (Finite 1))])],
               iterations = 1\<rparr>, ())"
    by code_simp
  from execute_aborts_on_inconsistency [OF ok, of 0 "()" None unknownPortGraph 1] ns f1 f2 ok'
  have "execute 1 SinglePassStrategy () unknownPortGraph None = execute 1 SinglePassStrategy () knownPortGraph None"
    by simp
  with run e a ord ok ok' ns f1 show ?thesis by simp
qed

text \<open>
  C2 as stated fails for an edge that is not gathered. In \<open>danglingTargetGraph\<close> the
  edge from \<open>A\<close> goes to \<open>Z\<close>, which is neither in the graph nor in the order; no node
  is evaluated for it, and \<open>execute\<close> returns after one iteration. In
  \<open>unknownPortGraph\<close> the source \<open>Z\<close> of the second edge is no node and is not in the
  order, but the edge enters \<open>B\<close> at a port \<open>B\<close> does not have; \<open>execute\<close> returns
  after one iteration.
\<close>

theorem dangling_target_counterexample:
  "toNodeId (hd (edges danglingTargetGraph)) = ''Z'' \<and>
   map_of (nodes danglingTargetGraph) ''Z'' = None \<and>
   modifiedTopologicalSort danglingTargetGraph = Some [''A''] \<and>
   execute 1 SinglePassStrategy () danglingTargetGraph None =
     Some (Inr \<lparr>res_state = [(''A'', VObj [])], res_outputs = [(''A'', VObj [(''delta'', VNum (Finite 1))])],
               iterations = 1\<rparr>, ()) \<and>
   fromNodeId (edges unknownPortGraph ! 1) = ''Z'' \<and>
   map_of (nodes unknownPortGraph) ''Z'' = None \<and>
   modifiedTopologicalSort unknownPortGraph = Some [''A'', ''B''] \<and>
   execute 1 SinglePassStrategy () unknownPortGraph None =
     Some (Inr \<lparr>res_state = [(''A'', VObj []), (''B'', VObj [(''value'', VNum (Finite 1))])],
               res_outputs = [(''A'', VObj [(''delta'', VNum (Finite 1))]), (''B'', VObj [(''delta'', VNum (Finite 1))])],
               iterations = 1\<rparr>, ())"
  by code_simp

section \<open>Engine: the number of iterations\<close>

lemma iterateRun_Suc_prev:
  "iterateRun bevf g ord sm0 (Suc k) = Inr x \<Longrightarrow> \<exists>y. iterateRun bevf g ord sm0 k = Inr y"
  by (auto split: sum.splits)

lemma iterateRun_le:
  "iterateRun bevf g ord sm0 j = Inr x \<Longrightarrow> k \<le> j \<Longrightarrow> \<exists>y. iterateRun bevf g ord sm0 k = Inr y"
proof (induction j arbitrary: x)
  case 0
  then show ?case by auto
next
  case (Suc j)
  show ?case
  proof (cases "k = Suc j")
    case True
    with Suc.prems show ?thesis by blast
  next
    case False
    with Suc.prems have "k \<le> j" by simp
    moreover from iterateRun_Suc_prev [OF Suc.prems(1)] obtain y where "iterateRun bevf g ord sm0 j = Inr y" by blast
    ultimately show ?thesis using Suc.IH by blast
  qed
qed

lemma iterateRun_Suc_Some:
  "iterateRun bevf g ord sm0 (Suc k) = Inr (c, sm, outs) \<Longrightarrow> c = Some (resultsAt bevf g ord sm0 (Suc k))"
  by (auto simp: resultsAt_def split: sum.splits)

lemma iterateRun_Inl_mono:
  "iterateRun bevf g ord sm0 k = Inl e \<Longrightarrow> k \<le> j \<Longrightarrow> iterateRun bevf g ord sm0 j = Inl e"
  by (induction j) (auto simp: le_Suc_eq)

lemma iterateRun_error:
  "iterateRun bevf g ord sm0 k = Inl err \<Longrightarrow> justified g ord err"
proof (induction k)
  case 0
  then show ?case by simp
next
  case (Suc k)
  show ?case
  proof (cases "iterateRun bevf g ord sm0 k")
    case (Inl e)
    with Suc show ?thesis by simp
  next
    case (Inr x)
    obtain prev sm outs where x: "x = (prev, sm, outs)" by (cases x)
    from Suc.prems Inr x
    have "runNodes g (int k + 1) (bevf (int k + 1) prev) ord ord
            \<lparr>stateMap = sm, currentResults = [], outputsMap = outs\<rparr> = Inl err"
      by (auto split: sum.splits)
    from runNodes_error [OF this] show ?thesis by simp
  qed
qed

text \<open>
  One turn of the loop of \<open>execute\<close>, on the state the first \<open>k\<close> iterations leave.
\<close>

lemma executeLoop_abort:
  assumes "determineExecutionOrder strategy g = Some ord"
    and "iterateRun (getBackEdgeValues strategy) g ord sm0 k = Inr (prev, sm, outs)"
    and "iterateRun (getBackEdgeValues strategy) g ord sm0 (Suc k) = Inl e"
  shows "executeLoop (Suc fuel) strategy ss g (int k) prev sm outs = Some (Inl e, ss)"
  using assms by (auto split: sum.splits)

lemma executeLoop_step:
  assumes "determineExecutionOrder strategy g = Some ord"
    and "iterateRun (getBackEdgeValues strategy) g ord sm0 k = Inr (prev, sm, outs)"
    and "iterateRun (getBackEdgeValues strategy) g ord sm0 (Suc k) = Inr (Some cur, sm', outs')"
  shows "executeLoop (Suc fuel) strategy ss g (int k) prev sm outs =
           (case shouldContinue strategy ss (int k + 1) cur of
              (Inl e, ss') \<Rightarrow> Some (Inl e, ss')
            | (Inr False, ss') \<Rightarrow>
                Some (Inr \<lparr>res_state = sm', res_outputs = outs', iterations = int k + 1\<rparr>, ss')
            | (Inr True, ss') \<Rightarrow>
                executeLoop fuel strategy ss' g (int k + 1) (Some cur) sm' outs')"
  using assms by (auto split: sum.splits prod.splits bool.splits)

lemma multiPass_loop:
  assumes ord: "determineExecutionOrder strategy g = Some ord"
    and sc: "shouldContinue strategy = (\<lambda>s iteration res. (Inr (iteration < n), s))"
  shows "k < nat n \<Longrightarrow> nat n - k \<le> fuel \<Longrightarrow>
         iterateRun (getBackEdgeValues strategy) g ord sm0 k = Inr (prev, sm, outs) \<Longrightarrow>
         executeLoop fuel strategy ss g (int k) prev sm outs =
           Some (outcome (iterateRun (getBackEdgeValues strategy) g ord sm0 (nat n)) n, ss)"
proof (induction fuel arbitrary: k prev sm outs)
  case 0
  then show ?case by simp
next
  case (Suc fuel)
  let ?it = "iterateRun (getBackEdgeValues strategy) g ord sm0"
  show ?case
  proof (cases "?it (Suc k)")
    case (Inl e)
    have "Suc k \<le> nat n" using Suc.prems by simp
    from iterateRun_Inl_mono [OF Inl this] have "?it (nat n) = Inl e" .
    with executeLoop_abort [OF ord Suc.prems(3) Inl] show ?thesis
      by (simp add: outcome_def)
  next
    case (Inr x)
    obtain c sm' outs' where x: "x = (c, sm', outs')" by (cases x)
    from Inr x iterateRun_Suc_Some have c: "c = Some (resultsAt (getBackEdgeValues strategy) g ord sm0 (Suc k))"
      by blast
    let ?cur = "resultsAt (getBackEdgeValues strategy) g ord sm0 (Suc k)"
    have step: "?it (Suc k) = Inr (Some ?cur, sm', outs')" using Inr x c by simp
    note unf = executeLoop_step [OF ord Suc.prems(3) step, of fuel ss]
    show ?thesis
    proof (cases "Suc k < nat n")
      case True
      then have lt: "int k + 1 < n" by linarith
      have "executeLoop (Suc fuel) strategy ss g (int k) prev sm outs =
              executeLoop fuel strategy ss g (int (Suc k)) (Some ?cur) sm' outs'"
        using unf lt by (simp add: sc add.commute)
      also have "\<dots> = Some (outcome (?it (nat n)) n, ss)"
        using Suc.IH [OF True _ step] Suc.prems(2) by simp
      finally show ?thesis .
    next
      case False
      with Suc.prems have eq: "Suc k = nat n" by simp
      then have "int k + 1 = n" by linarith
      then show ?thesis using unf step eq
        by (simp add: sc outcome_def)
    qed
  qed
qed

text \<open>
  C5 (as amended). For every graph and every \<open>n \<ge> 1\<close>, the constructor returns a
  strategy, the sort returns an order, and \<open>execute\<close> with that strategy ends within
  \<open>n\<close> turns of its loop. It runs the first \<open>n\<close> iterations: when none of them aborts
  it returns their state and outputs with \<open>iterations = n\<close>; otherwise it aborts
  with the error of the first that does, which is justified (a consistency error,
  or an error a node threw).
\<close>

theorem multiPass_iterations:
  assumes n: "1 \<le> n" and fuel: "nat n \<le> fuel"
  shows "\<exists>strategy ord. MultiPassStrategy n = Inr strategy \<and> modifiedTopologicalSort g = Some ord \<and>
           execute fuel strategy () g initialState =
             Some (outcome (iterateRun MultiPass_getBackEdgeValues g ord
                              (initialStateMap g initialState) (nat n)) n, ()) \<and>
           ((\<exists>res. execute fuel strategy () g initialState = Some (Inr res, ()) \<and> iterations res = n) \<or>
            (\<exists>err. execute fuel strategy () g initialState = Some (Inl err, ()) \<and> justified g ord err))"
proof -
  from modifiedTopologicalSort_total obtain ord where ord: "modifiedTopologicalSort g = Some ord" by blast
  let ?s = "\<lparr>determineExecutionOrder = modifiedTopologicalSort,
             shouldContinue = (\<lambda>s iteration res. (Inr (iteration < n), s)),
             getBackEdgeValues = MultiPass_getBackEdgeValues\<rparr> :: unit ExecutionStrategy"
  let ?it = "iterateRun MultiPass_getBackEdgeValues g ord (initialStateMap g initialState) (nat n)"
  have s: "MultiPassStrategy n = Inr ?s" using n by (simp add: MultiPassStrategy_def)
  have o: "determineExecutionOrder ?s g = Some ord" using ord by simp
  have sc: "shouldContinue ?s = (\<lambda>s iteration res. (Inr (iteration < n), s))" by simp
  have "executeLoop fuel ?s () g (int 0) None (initialStateMap g initialState) [] =
          Some (outcome (iterateRun (getBackEdgeValues ?s) g ord (initialStateMap g initialState) (nat n)) n, ())"
    by (rule multiPass_loop [OF o sc]) (use n fuel in auto)
  then have ex: "execute fuel ?s () g initialState = Some (outcome ?it n, ())"
    by (simp add: execute_def)
  have alt: "(\<exists>res. execute fuel ?s () g initialState = Some (Inr res, ()) \<and> iterations res = n) \<or>
            (\<exists>err. execute fuel ?s () g initialState = Some (Inl err, ()) \<and> justified g ord err)"
  proof (cases ?it)
    case (Inl err)
    from iterateRun_error [OF Inl] Inl ex show ?thesis by (simp add: outcome_def)
  next
    case (Inr x)
    obtain c sm outs where "x = (c, sm, outs)" by (cases x)
    with Inr ex show ?thesis by (simp add: outcome_def)
  qed
  from s ord ex alt show ?thesis by blast
qed

text \<open>
  The theorem at \<open>feedbackGraph\<close> and \<open>n = 3\<close>: the run returns with \<open>iterations = 3\<close>.
\<close>

theorem multiPass_iterations_witness:
  "(1::int) \<le> 3 \<and> nat 3 \<le> (3::nat) \<and>
   (\<exists>strategy. MultiPassStrategy 3 = Inr strategy \<and>
      execute 3 strategy () feedbackGraph None =
        Some (Inr \<lparr>res_state = [(''INPUT'', VObj []), (''A'', VObj [(''value'', VNum (Finite 6))]),
                                 (''B'', VObj [(''value'', VNum (Finite 3))])],
                   res_outputs = [(''INPUT'', VObj [(''delta'', VNum (Finite 1))]), (''B'', VObj [(''delta'', VNum (Finite 2))]),
                                  (''A'', VObj [(''delta'', VNum (Finite 3))])],
                   iterations = 3\<rparr>, ()))"
proof -
  have ord: "modifiedTopologicalSort feedbackGraph = Some [''INPUT'', ''B'', ''A'']"
    by code_simp
  have run: "iterateRun MultiPass_getBackEdgeValues feedbackGraph [''INPUT'', ''B'', ''A'']
               (initialStateMap feedbackGraph None) (nat 3) =
             Inr (Some [(''INPUT'', VObj [(''delta'', VNum (Finite 1))]), (''B'', VObj [(''delta'', VNum (Finite 2))]),
                        (''A'', VObj [(''delta'', VNum (Finite 3))])],
                  [(''INPUT'', VObj []), (''A'', VObj [(''value'', VNum (Finite 6))]), (''B'', VObj [(''value'', VNum (Finite 3))])],
                  [(''INPUT'', VObj [(''delta'', VNum (Finite 1))]), (''B'', VObj [(''delta'', VNum (Finite 2))]),
                   (''A'', VObj [(''delta'', VNum (Finite 3))])])"
    by code_simp
  from multiPass_iterations [of 3 3 feedbackGraph None] ord run
  show ?thesis by (auto simp: outcome_def)
qed

text \<open>
  C5 as stated fails where a run aborts. On \<open>danglingSourceGraph\<close>, \<open>execute\<close> under
  \<open>MultiPassStrategy(3)\<close> does not return a result: it aborts in the first iteration,
  naming the missing source \<open>Z\<close>.
\<close>

theorem multiPass_abort_counterexample:
  "MultiPassStrategy 3 =
     Inr \<lparr>determineExecutionOrder = modifiedTopologicalSort,
          shouldContinue = (\<lambda>s iteration res. (Inr (iteration < 3), s)),
          getBackEdgeValues = MultiPass_getBackEdgeValues\<rparr> \<and>
   execute 3 \<lparr>determineExecutionOrder = modifiedTopologicalSort,
              shouldContinue = (\<lambda>s iteration res. (Inr (iteration < 3), s)),
              getBackEdgeValues = MultiPass_getBackEdgeValues\<rparr> () danglingSourceGraph None =
     Some (Inl (SourceNotFoundInOrder ''Z''), ())"
proof -
  have "MultiPassStrategy 3 =
     Inr \<lparr>determineExecutionOrder = modifiedTopologicalSort,
          shouldContinue = (\<lambda>s iteration res. (Inr (iteration < 3), s)),
          getBackEdgeValues = MultiPass_getBackEdgeValues\<rparr>"
    by (simp add: MultiPassStrategy_def)
  moreover have "execute 3 \<lparr>determineExecutionOrder = modifiedTopologicalSort,
              shouldContinue = (\<lambda>s iteration res. (Inr (iteration < 3), s)),
              getBackEdgeValues = MultiPass_getBackEdgeValues\<rparr> () danglingSourceGraph None =
     Some (Inl (SourceNotFoundInOrder ''Z''), ())"
    by code_simp
  ultimately show ?thesis by simp
qed

text \<open>
  \<open>checkConvergence\<close> decides stability: when no current output is \<open>null\<close> (on which
  \<open>Object.entries\<close> throws), it returns whether the current results are stable
  against the previous ones.
\<close>

lemma fieldsConverged_iff:
  "fieldsConverged th (VObj pf) cf \<longleftrightarrow>
     (\<forall>(portId, v) \<in> set cf. \<forall>c. v = VNum c \<longrightarrow>
        (\<exists>p. map_of pf portId = Some (VNum p) \<and> \<not> dge (dabs (dsub c p)) th))"
proof (induction cf)
  case Nil
  show ?case by simp
next
  case (Cons kv cf)
  obtain k v where kv: "kv = (k, v)" by (cases kv)
  show ?case
  proof (cases v)
    case (VNum c)
    show ?thesis
    proof (cases "map_of pf k")
      case None
      then show ?thesis by (simp add: kv VNum)
    next
      case (Some pv)
      then show ?thesis using Cons.IH by (cases pv) (auto simp: kv VNum)
    qed
  qed (use Cons.IH in \<open>auto simp: kv\<close>)
qed

lemma nodesConverged_iff:
  "VNull \<notin> snd ` set cur \<Longrightarrow>
     nodesConverged th prev cur =
       Inr (\<forall>(nodeId, currentOutputs) \<in> set cur.
              \<exists>cf pf. currentOutputs = VObj cf \<and> map_of prev nodeId = Some (VObj pf) \<and>
                (\<forall>(portId, v) \<in> set cf. \<forall>c. v = VNum c \<longrightarrow>
                   (\<exists>p. map_of pf portId = Some (VNum p) \<and> \<not> dge (dabs (dsub c p)) th)))"
proof (induction cur)
  case Nil
  show ?case by simp
next
  case (Cons nc cur)
  obtain n c where nc: "nc = (n, c)" by (cases nc)
  have cn: "c \<noteq> VNull" and rest: "VNull \<notin> snd ` set cur" using Cons.prems by (auto simp: nc)
  note ih = Cons.IH [OF rest]
  define po where "po = (case map_of prev n of None \<Rightarrow> VUndefined | Some v \<Rightarrow> v)"
  show ?case
  proof (cases "\<exists>cf pf. c = VObj cf \<and> map_of prev n = Some (VObj pf)")
    case True
    then obtain cf pf where c: "c = VObj cf" and p: "map_of prev n = Some (VObj pf)" by blast
    show ?thesis
      by (simp add: nc c p ih fieldsConverged_iff)
  next
    case False
    have "nodesConverged th prev ((n, c) # cur) = Inr False"
    proof (cases "map_of prev n")
      case None
      then show ?thesis by simp
    next
      case (Some pv)
      show ?thesis
      proof (cases pv)
        case (VObj pf)
        with False Some have "\<forall>cf. c \<noteq> VObj cf" by simp
        with cn have "\<not> typeof_object c" by (cases c) auto
        then show ?thesis by (simp add: Some VObj Let_def)
      qed (auto simp: Some Let_def)
    qed
    with False show ?thesis by (auto simp: nc)
  qed
qed

lemma checkConvergence_stable:
  "VNull \<notin> snd ` set cur \<Longrightarrow> checkConvergence th prev cur = Inr (stable th prev cur)"
  by (auto simp: checkConvergence_def stable_def nodesConverged_iff split: bool.splits)

text \<open>
  A change that is less than the threshold is not \<open>>=\<close> it, so it leaves the results
  stable; the two tests differ only where the change or the threshold is NaN.
\<close>

lemma dlt_not_dge: "dlt a b \<Longrightarrow> \<not> dge a b"
  by (cases a; cases b) auto

lemma dge_iff_not_dlt: "a \<noteq> NaN \<Longrightarrow> b \<noteq> NaN \<Longrightarrow> dge a b \<longleftrightarrow> \<not> dlt a b"
  by (cases a; cases b) auto

text \<open>
  The comparison is one of doubles. \<open>accumulatorGraph\<close> emits the sums 0.1, 0.1 + 0.1,
  and so on; under a threshold of 0.1 and at most 10 iterations the run ends with
  the fourth, whose sum differs from the third by less than 0.1 as doubles go,
  though each step adds 0.1.
\<close>

lemma accumulator_rounding:
  "execute 10 \<lparr>determineExecutionOrder = modifiedTopologicalSort,
               shouldContinue = Convergence_shouldContinue (roundToDouble (1/10)) 10,
               getBackEdgeValues = Convergence_getBackEdgeValues\<rparr> None accumulatorGraph None =
     Some (Inr \<lparr>res_state = [(''A'', VObj []), (''B'', VObj [(''total'', VNum (roundToDouble (4/10)))])],
                res_outputs = [(''A'', VObj [(''delta'', VNum (roundToDouble (1/10)))]),
                               (''B'', VObj [(''total'', VNum (roundToDouble (4/10)))])],
                iterations = 4\<rparr>,
           Some [(''A'', VObj [(''delta'', VNum (roundToDouble (1/10)))]),
                 (''B'', VObj [(''total'', VNum (roundToDouble (4/10)))])])"
  by code_simp

lemma convergence_loop:
  assumes ord: "determineExecutionOrder strategy g = Some ord"
    and sc: "shouldContinue strategy = Convergence_shouldContinue th mx"
    and final: "iterateRun (getBackEdgeValues strategy) g ord sm0 J = Inr (cJ, smJ, outsJ)"
    and le: "int J \<le> mx"
    and nonconv: "\<forall>i. 2 \<le> i \<and> i < J \<longrightarrow>
        checkConvergence th (resultsAt (getBackEdgeValues strategy) g ord sm0 (i - 1))
                            (resultsAt (getBackEdgeValues strategy) g ord sm0 i) = Inr False"
    and stop: "int J = mx \<or>
        checkConvergence th (resultsAt (getBackEdgeValues strategy) g ord sm0 (J - 1))
                            (resultsAt (getBackEdgeValues strategy) g ord sm0 J) = Inr True"
  shows "1 \<le> k \<Longrightarrow> k < J \<Longrightarrow> J - k \<le> fuel \<Longrightarrow>
         iterateRun (getBackEdgeValues strategy) g ord sm0 k =
           Inr (Some (resultsAt (getBackEdgeValues strategy) g ord sm0 k), sm, outs) \<Longrightarrow>
         \<exists>ss'. executeLoop fuel strategy (Some (resultsAt (getBackEdgeValues strategy) g ord sm0 k)) g (int k)
                  (Some (resultsAt (getBackEdgeValues strategy) g ord sm0 k)) sm outs =
                Some (Inr \<lparr>res_state = smJ, res_outputs = outsJ, iterations = int J\<rparr>, ss')"
proof (induction fuel arbitrary: k sm outs)
  case 0
  then show ?case by simp
next
  case (Suc fuel)
  let ?it = "iterateRun (getBackEdgeValues strategy) g ord sm0"
  let ?R = "resultsAt (getBackEdgeValues strategy) g ord sm0"
  have "Suc k \<le> J" using Suc.prems by simp
  from iterateRun_le [OF final this] obtain y where y: "?it (Suc k) = Inr y" by blast
  obtain c sm' outs' where yy: "y = (c, sm', outs')" by (cases y)
  from y yy iterateRun_Suc_Some have "c = Some (?R (Suc k))" by blast
  with y yy have step: "?it (Suc k) = Inr (Some (?R (Suc k)), sm', outs')" by simp
  note unf = executeLoop_step [OF ord Suc.prems(4) step, of fuel "Some (?R k)"]
  show ?case
  proof (cases "Suc k < J")
    case True
    then have lt: "\<not> mx \<le> int k + 1" using le by linarith
    have "2 \<le> Suc k" using Suc.prems(1) by simp
    with True nonconv have nc: "checkConvergence th (?R (Suc k - 1)) (?R (Suc k)) = Inr False" by blast
    have "executeLoop (Suc fuel) strategy (Some (?R k)) g (int k) (Some (?R k)) sm outs =
            executeLoop fuel strategy (Some (?R (Suc k))) g (int (Suc k)) (Some (?R (Suc k))) sm' outs'"
      using unf lt nc by (simp add: sc Convergence_shouldContinue_def add.commute)
    moreover have "\<exists>ss'. executeLoop fuel strategy (Some (?R (Suc k))) g (int (Suc k)) (Some (?R (Suc k))) sm' outs' =
            Some (Inr \<lparr>res_state = smJ, res_outputs = outsJ, iterations = int J\<rparr>, ss')"
      using Suc.IH [OF _ True _ step] Suc.prems(3) by simp
    ultimately show ?thesis by simp
  next
    case False
    with Suc.prems have eq: "Suc k = J" by simp
    then have ik: "int k + 1 = int J" by simp
    from step eq final have same: "sm' = smJ" "outs' = outsJ" by simp_all
    from stop show ?thesis
    proof
      assume "int J = mx"
      then show ?thesis using unf ik same
        by (simp add: sc Convergence_shouldContinue_def)
    next
      assume cv: "checkConvergence th (?R (J - 1)) (?R J) = Inr True"
      have "J - 1 = k" using eq by simp
      with cv have "checkConvergence th (?R k) (?R (Suc k)) = Inr True" using eq by simp
      then show ?thesis using unf ik same eq
        by (simp add: sc Convergence_shouldContinue_def)
    qed
  qed
qed

text \<open>
  C6 (as amended). Take a new \<open>ConvergenceStrategy(th, max)\<close>, and let \<open>J\<close> with
  \<open>1 \<le> J \<le> max\<close> be such that the first \<open>J\<close> iterations do not abort and return no
  \<open>null\<close> output, the results of no iteration \<open>i\<close> with \<open>2 \<le> i < J\<close> are stable against
  those of iteration \<open>i - 1\<close>, and either \<open>J = max\<close>, or \<open>J \<ge> 2\<close> and the results of
  iteration \<open>J\<close> are stable against those of iteration \<open>J - 1\<close>. Then \<open>execute\<close> returns
  after iteration \<open>J\<close>, with \<open>iterations = J\<close>. So \<open>iterations < max\<close> exactly when the
  results are first stable at an iteration before \<open>max\<close>, and \<open>iterations = max\<close> when
  they are stable at none before \<open>max\<close>.
\<close>

theorem convergence_iterations:
  assumes strat: "ConvergenceStrategy th maxArg = Inr strategy"
    and mx: "mx = (case maxArg of None \<Rightarrow> 100 | Some m \<Rightarrow> m)"
    and ord: "modifiedTopologicalSort g = Some ord"
    and J: "1 \<le> J" "int J \<le> mx"
    and run: "iterateRun Convergence_getBackEdgeValues g ord (initialStateMap g initialState) J = Inr (c, sm, outs)"
    and nonnull: "\<forall>i. 2 \<le> i \<and> i \<le> J \<longrightarrow>
        VNull \<notin> snd ` set (resultsAt Convergence_getBackEdgeValues g ord (initialStateMap g initialState) i)"
    and nonconv: "\<forall>i. 2 \<le> i \<and> i < J \<longrightarrow>
        \<not> stable th (resultsAt Convergence_getBackEdgeValues g ord (initialStateMap g initialState) (i - 1))
                     (resultsAt Convergence_getBackEdgeValues g ord (initialStateMap g initialState) i)"
    and stop: "int J = mx \<or> (2 \<le> J \<and>
        stable th (resultsAt Convergence_getBackEdgeValues g ord (initialStateMap g initialState) (J - 1))
                  (resultsAt Convergence_getBackEdgeValues g ord (initialStateMap g initialState) J))"
    and fuel: "J \<le> fuel"
  shows "\<exists>ss'. execute fuel strategy None g initialState =
           Some (Inr \<lparr>res_state = sm, res_outputs = outs, iterations = int J\<rparr>, ss')"
proof -
  let ?sm0 = "initialStateMap g initialState"
  from strat mx have s: "strategy = \<lparr>determineExecutionOrder = modifiedTopologicalSort,
             shouldContinue = Convergence_shouldContinue th mx,
             getBackEdgeValues = Convergence_getBackEdgeValues\<rparr>"
    by (auto simp: ConvergenceStrategy_def Let_def split: if_splits)
  have o: "determineExecutionOrder strategy g = Some ord" using ord s by simp
  have sc: "shouldContinue strategy = Convergence_shouldContinue th mx" using s by simp
  have bv: "getBackEdgeValues strategy = Convergence_getBackEdgeValues" using s by simp
  let ?it = "iterateRun (getBackEdgeValues strategy) g ord ?sm0"
  let ?R = "resultsAt (getBackEdgeValues strategy) g ord ?sm0"
  have final: "?it J = Inr (c, sm, outs)" using run bv by simp
  have it0: "?it 0 = Inr (None, ?sm0, [])" by simp
  from iterateRun_le [OF final, of "Suc 0"] J obtain y where y: "?it (Suc 0) = Inr y" by auto
  obtain c1 sm1 outs1 where yy: "y = (c1, sm1, outs1)" by (cases y)
  from y yy iterateRun_Suc_Some have "c1 = Some (?R (Suc 0))" by blast
  with y yy have step: "?it (Suc 0) = Inr (Some (?R (Suc 0)), sm1, outs1)" by simp
  obtain fuel' where f: "fuel = Suc fuel'" using fuel J by (cases fuel) auto
  note unf = executeLoop_step [OF o it0 step, of fuel' None]
  have check: "checkConvergence th (?R (i - 1)) (?R i) = Inr (stable th (?R (i - 1)) (?R i))"
    if "2 \<le> i" "i \<le> J" for i
    using nonnull that bv by (intro checkConvergence_stable) simp
  show ?thesis
  proof (cases "J = 1")
    case True
    with stop have "mx = 1" by auto
    moreover from step True final have "sm1 = sm" "outs1 = outs" by simp_all
    ultimately show ?thesis using unf True f
      by (simp add: execute_def sc Convergence_shouldContinue_def)
  next
    case False
    with J have J2: "1 < J" by simp
    then have lt: "\<not> mx \<le> 1" using J by linarith
    have first: "executeLoop fuel strategy None g 0 None ?sm0 [] =
            executeLoop fuel' strategy (Some (?R 1)) g (int 1) (Some (?R 1)) sm1 outs1"
      using unf lt f by (simp add: sc Convergence_shouldContinue_def)
    have stop': "int J = mx \<or> checkConvergence th (?R (J - 1)) (?R J) = Inr True"
    proof (cases "int J = mx")
      case True
      then show ?thesis by simp
    next
      case False
      with stop have "2 \<le> J" and st: "stable th (?R (J - 1)) (?R J)" using bv by auto
      with check [of J] show ?thesis by simp
    qed
    have nonconv': "\<forall>i. 2 \<le> i \<and> i < J \<longrightarrow> checkConvergence th (?R (i - 1)) (?R i) = Inr False"
    proof (intro allI impI)
      fix i assume i: "2 \<le> i \<and> i < J"
      with nonconv bv have "\<not> stable th (?R (i - 1)) (?R i)" by simp
      with check [of i] i show "checkConvergence th (?R (i - 1)) (?R i) = Inr False" by simp
    qed
    have "\<exists>ss'. executeLoop fuel' strategy (Some (?R 1)) g (int 1) (Some (?R 1)) sm1 outs1 =
            Some (Inr \<lparr>res_state = sm, res_outputs = outs, iterations = int J\<rparr>, ss')"
      by (rule convergence_loop [OF o sc final J(2) nonconv' stop']) (use J2 fuel f step in auto)
    with first show ?thesis by (simp add: execute_def)
  qed
qed

text \<open>
  The theorem at \<open>convergingGraph\<close> with threshold 0.1 and the default maximum 100,
  where the results of iteration 2 are stable: \<open>iterations = 2\<close>; and at
  \<open>feedbackGraph\<close> with threshold 0.1 and maximum 3, where those of iteration 2 are
  not: \<open>iterations = 3\<close>.
\<close>

theorem convergence_iterations_witness:
  "(\<exists>ss'. execute 2 \<lparr>determineExecutionOrder = modifiedTopologicalSort,
                      shouldContinue = Convergence_shouldContinue (roundToDouble (1/10)) 100,
                      getBackEdgeValues = Convergence_getBackEdgeValues\<rparr> None convergingGraph None =
            Some (Inr \<lparr>res_state = [(''A'', VObj []), (''B'', VObj [(''value'', VNum (roundToDouble (1/10)))])],
                       res_outputs = [(''A'', VObj [(''delta'', VNum (roundToDouble (1/20)))]),
                                      (''B'', VObj [(''delta'', VNum (roundToDouble (1/20)))])],
                       iterations = 2\<rparr>, ss')) \<and>
   (\<exists>ss'. execute 3 \<lparr>determineExecutionOrder = modifiedTopologicalSort,
                      shouldContinue = Convergence_shouldContinue (roundToDouble (1/10)) 3,
                      getBackEdgeValues = Convergence_getBackEdgeValues\<rparr> None feedbackGraph None =
            Some (Inr \<lparr>res_state = [(''INPUT'', VObj []), (''A'', VObj [(''value'', VNum (Finite 6))]),
                                     (''B'', VObj [(''value'', VNum (Finite 3))])],
                       res_outputs = [(''INPUT'', VObj [(''delta'', VNum (Finite 1))]), (''B'', VObj [(''delta'', VNum (Finite 2))]),
                                      (''A'', VObj [(''delta'', VNum (Finite 3))])],
                       iterations = 3\<rparr>, ss'))"
proof -
  let ?th = "roundToDouble (1/10)"
  let ?S1 = "\<lparr>determineExecutionOrder = modifiedTopologicalSort,
              shouldContinue = Convergence_shouldContinue ?th 100,
              getBackEdgeValues = Convergence_getBackEdgeValues\<rparr>"
  let ?S2 = "\<lparr>determineExecutionOrder = modifiedTopologicalSort,
              shouldContinue = Convergence_shouldContinue ?th 3,
              getBackEdgeValues = Convergence_getBackEdgeValues\<rparr>"
  let ?R1 = "resultsAt Convergence_getBackEdgeValues convergingGraph [''A'', ''B''] (initialStateMap convergingGraph None)"
  let ?R2 = "resultsAt Convergence_getBackEdgeValues feedbackGraph [''INPUT'', ''B'', ''A''] (initialStateMap feedbackGraph None)"
  have th: "\<not> dlt ?th (Finite 0)" by code_simp
  have s1: "ConvergenceStrategy ?th None = Inr ?S1"
    using th by (simp add: ConvergenceStrategy_def)
  have o1: "modifiedTopologicalSort convergingGraph = Some [''A'', ''B'']" by code_simp
  have run1: "iterateRun Convergence_getBackEdgeValues convergingGraph [''A'', ''B'']
                (initialStateMap convergingGraph None) 2 =
              Inr (Some [(''A'', VObj [(''delta'', VNum (roundToDouble (1/20)))]), (''B'', VObj [(''delta'', VNum (roundToDouble (1/20)))])],
                   [(''A'', VObj []), (''B'', VObj [(''value'', VNum (roundToDouble (1/10)))])],
                   [(''A'', VObj [(''delta'', VNum (roundToDouble (1/20)))]), (''B'', VObj [(''delta'', VNum (roundToDouble (1/20)))])])"
    by code_simp
  have r12: "VNull \<notin> snd ` set (?R1 2)"
    using run1 by (simp add: resultsAt_def)
  have nn1: "\<forall>i. 2 \<le> i \<and> i \<le> (2::nat) \<longrightarrow> VNull \<notin> snd ` set (?R1 i)"
  proof (intro allI impI)
    fix i :: nat assume "2 \<le> i \<and> i \<le> 2"
    then have "i = 2" by arith
    with r12 show "VNull \<notin> snd ` set (?R1 i)" by simp
  qed
  have nc1: "\<forall>i. 2 \<le> i \<and> i < (2::nat) \<longrightarrow> \<not> stable ?th (?R1 (i - 1)) (?R1 i)"
  proof (intro allI impI)
    fix i :: nat assume "2 \<le> i \<and> i < 2"
    then have False by arith
    then show "\<not> stable ?th (?R1 (i - 1)) (?R1 i)" ..
  qed
  have "checkConvergence ?th (?R1 (2 - 1)) (?R1 2) = Inr True" by code_simp
  then have cv1: "stable ?th (?R1 (2 - 1)) (?R1 2)"
    using checkConvergence_stable [OF r12, of ?th "?R1 (2 - 1)"] by simp
  have st1: "int 2 = 100 \<or> (2 \<le> (2::nat) \<and> stable ?th (?R1 (2 - 1)) (?R1 2))"
    using cv1 by simp
  have w1: "\<exists>ss'. execute 2 ?S1 None convergingGraph None =
            Some (Inr \<lparr>res_state = [(''A'', VObj []), (''B'', VObj [(''value'', VNum (roundToDouble (1/10)))])],
                       res_outputs = [(''A'', VObj [(''delta'', VNum (roundToDouble (1/20)))]),
                                      (''B'', VObj [(''delta'', VNum (roundToDouble (1/20)))])],
                       iterations = int 2\<rparr>, ss')"
    by (rule convergence_iterations [OF s1 _ o1 _ _ run1 nn1 nc1 st1]) simp_all
  have s2: "ConvergenceStrategy ?th (Some 3) = Inr ?S2"
    using th by (simp add: ConvergenceStrategy_def)
  have o2: "modifiedTopologicalSort feedbackGraph = Some [''INPUT'', ''B'', ''A'']" by code_simp
  have run2: "iterateRun Convergence_getBackEdgeValues feedbackGraph [''INPUT'', ''B'', ''A'']
                (initialStateMap feedbackGraph None) 3 =
              Inr (Some [(''INPUT'', VObj [(''delta'', VNum (Finite 1))]), (''B'', VObj [(''delta'', VNum (Finite 2))]),
                         (''A'', VObj [(''delta'', VNum (Finite 3))])],
                   [(''INPUT'', VObj []), (''A'', VObj [(''value'', VNum (Finite 6))]), (''B'', VObj [(''value'', VNum (Finite 3))])],
                   [(''INPUT'', VObj [(''delta'', VNum (Finite 1))]), (''B'', VObj [(''delta'', VNum (Finite 2))]),
                    (''A'', VObj [(''delta'', VNum (Finite 3))])])"
    by code_simp
  have r22: "?R2 2 = [(''INPUT'', VObj [(''delta'', VNum (Finite 1))]), (''B'', VObj [(''delta'', VNum (Finite 1))]),
                      (''A'', VObj [(''delta'', VNum (Finite 2))])]"
    by code_simp
  have n22: "VNull \<notin> snd ` set (?R2 2)" unfolding r22 by simp
  have n23: "VNull \<notin> snd ` set (?R2 3)" using run2 by (simp add: resultsAt_def)
  have nn2: "\<forall>i. 2 \<le> i \<and> i \<le> (3::nat) \<longrightarrow> VNull \<notin> snd ` set (?R2 i)"
  proof (intro allI impI)
    fix i :: nat assume "2 \<le> i \<and> i \<le> 3"
    then have "i = 2 \<or> i = 3" by arith
    with n22 n23 show "VNull \<notin> snd ` set (?R2 i)" by auto
  qed
  have "checkConvergence ?th (?R2 (2 - 1)) (?R2 2) = Inr False" by code_simp
  then have c2: "\<not> stable ?th (?R2 (2 - 1)) (?R2 2)"
    using checkConvergence_stable [OF n22, of ?th "?R2 (2 - 1)"] by simp
  have nc2: "\<forall>i. 2 \<le> i \<and> i < (3::nat) \<longrightarrow> \<not> stable ?th (?R2 (i - 1)) (?R2 i)"
  proof (intro allI impI)
    fix i :: nat assume "2 \<le> i \<and> i < 3"
    then have "i = 2" by arith
    with c2 show "\<not> stable ?th (?R2 (i - 1)) (?R2 i)" by simp
  qed
  have st2: "int 3 = 3 \<or> (2 \<le> (3::nat) \<and> stable ?th (?R2 (3 - 1)) (?R2 3))"
    by simp
  have w2: "\<exists>ss'. execute 3 ?S2 None feedbackGraph None =
            Some (Inr \<lparr>res_state = [(''INPUT'', VObj []), (''A'', VObj [(''value'', VNum (Finite 6))]),
                                     (''B'', VObj [(''value'', VNum (Finite 3))])],
                       res_outputs = [(''INPUT'', VObj [(''delta'', VNum (Finite 1))]), (''B'', VObj [(''delta'', VNum (Finite 2))]),
                                      (''A'', VObj [(''delta'', VNum (Finite 3))])],
                       iterations = int 3\<rparr>, ss')"
    by (rule convergence_iterations [OF s2 _ o2 _ _ run2 nn2 nc2 st2]) simp_all
  from w1 w2 show ?thesis by simp
qed

text \<open>
  C6 as stated fails where the outputs are stable but the maximum is reached
  first. On \<open>convergingGraph\<close> the results of iterations 1 and 2 are equal, and
  stable within 0.1, yet with maximum 2 \<open>execute\<close> returns \<open>iterations = 2\<close>, which is
  the maximum, not less: at iteration 2 the limit test comes before the comparison.
\<close>

theorem convergence_at_max_counterexample:
  "ConvergenceStrategy (roundToDouble (1/10)) (Some 2) =
     Inr \<lparr>determineExecutionOrder = modifiedTopologicalSort,
          shouldContinue = Convergence_shouldContinue (roundToDouble (1/10)) 2,
          getBackEdgeValues = Convergence_getBackEdgeValues\<rparr> \<and>
   resultsAt Convergence_getBackEdgeValues convergingGraph [''A'', ''B''] (initialStateMap convergingGraph None) 1 =
     [(''A'', VObj [(''delta'', VNum (roundToDouble (1/20)))]), (''B'', VObj [(''delta'', VNum (roundToDouble (1/20)))])] \<and>
   resultsAt Convergence_getBackEdgeValues convergingGraph [''A'', ''B''] (initialStateMap convergingGraph None) 2 =
     [(''A'', VObj [(''delta'', VNum (roundToDouble (1/20)))]), (''B'', VObj [(''delta'', VNum (roundToDouble (1/20)))])] \<and>
   checkConvergence (roundToDouble (1/10))
     [(''A'', VObj [(''delta'', VNum (roundToDouble (1/20)))]), (''B'', VObj [(''delta'', VNum (roundToDouble (1/20)))])]
     [(''A'', VObj [(''delta'', VNum (roundToDouble (1/20)))]), (''B'', VObj [(''delta'', VNum (roundToDouble (1/20)))])] = Inr True \<and>
   execute 2 \<lparr>determineExecutionOrder = modifiedTopologicalSort,
              shouldContinue = Convergence_shouldContinue (roundToDouble (1/10)) 2,
              getBackEdgeValues = Convergence_getBackEdgeValues\<rparr> None convergingGraph None =
     Some (Inr \<lparr>res_state = [(''A'', VObj []), (''B'', VObj [(''value'', VNum (roundToDouble (1/10)))])],
                res_outputs = [(''A'', VObj [(''delta'', VNum (roundToDouble (1/20)))]), (''B'', VObj [(''delta'', VNum (roundToDouble (1/20)))])],
                iterations = 2\<rparr>,
           Some [(''A'', VObj [(''delta'', VNum (roundToDouble (1/20)))]), (''B'', VObj [(''delta'', VNum (roundToDouble (1/20)))])])"
proof -
  have "\<not> dlt (roundToDouble (1/10)) (Finite 0)" by code_simp
  then have "ConvergenceStrategy (roundToDouble (1/10)) (Some 2) =
     Inr \<lparr>determineExecutionOrder = modifiedTopologicalSort,
          shouldContinue = Convergence_shouldContinue (roundToDouble (1/10)) 2,
          getBackEdgeValues = Convergence_getBackEdgeValues\<rparr>"
    by (simp add: ConvergenceStrategy_def)
  moreover have "resultsAt Convergence_getBackEdgeValues convergingGraph [''A'', ''B''] (initialStateMap convergingGraph None) 1 =
     [(''A'', VObj [(''delta'', VNum (roundToDouble (1/20)))]), (''B'', VObj [(''delta'', VNum (roundToDouble (1/20)))])]"
    by code_simp
  moreover have "resultsAt Convergence_getBackEdgeValues convergingGraph [''A'', ''B''] (initialStateMap convergingGraph None) 2 =
     [(''A'', VObj [(''delta'', VNum (roundToDouble (1/20)))]), (''B'', VObj [(''delta'', VNum (roundToDouble (1/20)))])]"
    by code_simp
  moreover have "checkConvergence (roundToDouble (1/10))
     [(''A'', VObj [(''delta'', VNum (roundToDouble (1/20)))]), (''B'', VObj [(''delta'', VNum (roundToDouble (1/20)))])]
     [(''A'', VObj [(''delta'', VNum (roundToDouble (1/20)))]), (''B'', VObj [(''delta'', VNum (roundToDouble (1/20)))])] = Inr True"
    by code_simp
  moreover have "execute 2 \<lparr>determineExecutionOrder = modifiedTopologicalSort,
              shouldContinue = Convergence_shouldContinue (roundToDouble (1/10)) 2,
              getBackEdgeValues = Convergence_getBackEdgeValues\<rparr> None convergingGraph None =
     Some (Inr \<lparr>res_state = [(''A'', VObj []), (''B'', VObj [(''value'', VNum (roundToDouble (1/10)))])],
                res_outputs = [(''A'', VObj [(''delta'', VNum (roundToDouble (1/20)))]), (''B'', VObj [(''delta'', VNum (roundToDouble (1/20)))])],
                iterations = 2\<rparr>,
           Some [(''A'', VObj [(''delta'', VNum (roundToDouble (1/20)))]), (''B'', VObj [(''delta'', VNum (roundToDouble (1/20)))])])"
    by code_simp
  ultimately show ?thesis by simp
qed

end
